theory Spec2Isabelle
  imports Main
begin

unbundle bit_operations_syntax

section \<open>Python values, errors and the operating system's random source\<close>

text \<open>
  Python's \<open>bytes\<close> are sequences of octets; they are modelled as lists of the 8-bit
  type \<open>char\<close>, so that the literal \<open>b'\x00\x02'\<close> is \<open>[CHR 0x00, CHR 0x02]\<close>.
  Python's unbounded \<open>int\<close> is \<open>int\<close>; \<open>//\<close> and \<open>%\<close> on \<open>int\<close> are floor division and
  its remainder, which is what \<open>div\<close> and \<open>mod\<close> are on \<open>int\<close>.
\<close>

type_synonym bytes = "char list"

text \<open>Every exception the modelled code raises is a value of this type.\<close>

datatype error =
    NotRelativePrimeError int int int
  | ZeroDivisionError
  | ValueError
  | KeyError
  | NameError
  | OverflowError
  | TypeError
  | UnicodeEncodeError
  | BinasciiError
  | DecryptionError
  | VerificationError

text \<open>
  \<open>os.urandom(size)\<close> belongs to the operating system, not to the library. The random
  source is an infinite sequence of octets that has not been read yet; a read of
  \<open>size\<close> octets returns the first \<open>size\<close> of them and the rest of the sequence.
  A negative \<open>size\<close> raises \<open>ValueError\<close>.
\<close>

type_synonym entropy = "nat \<Rightarrow> char"

definition urandom :: "int \<Rightarrow> entropy \<Rightarrow> error + bytes \<times> entropy" where
  "urandom sz s =
     (if sz < 0 then Inl ValueError
      else Inr (map s [0..<nat sz], \<lambda>i. s (i + nat sz)))"

text \<open>\<open>bytes(values)\<close> raises \<open>ValueError\<close> unless every value is in \<open>range(256)\<close>.\<close>

definition bytes_of_ints :: "int list \<Rightarrow> error + bytes" where
  "bytes_of_ints values =
     (if list_all (\<lambda>v. 0 \<le> v \<and> v < 256) values then Inr (map char_of values)
      else Inl ValueError)"

text \<open>
  The built-in \<open>pow(x, y, z)\<close> on integers, by binary exponentiation. A zero modulus
  raises \<open>ValueError\<close>. The modelled code never passes a negative exponent; the model
  answers \<open>ValueError\<close> there, where newer interpreters would look for a modular
  inverse first.
\<close>

fun modpow :: "int \<Rightarrow> nat \<Rightarrow> int \<Rightarrow> int" where
  "modpow x y z =
     (if y = 0 then 1 mod z
      else if y mod 2 = 0 then modpow (x * x mod z) (y div 2) z
      else x * modpow (x * x mod z) (y div 2) z mod z)"

declare modpow.simps [simp del]

definition pow3 :: "int \<Rightarrow> int \<Rightarrow> int \<Rightarrow> error + int" where
  "pow3 x y z = (if z = 0 \<or> y < 0 then Inl ValueError else Inr (modpow x (nat y) z))"

text \<open>
  \<open>n.to_bytes(length, byteorder='big')\<close>: \<open>OverflowError\<close> when \<open>n\<close> is negative or
  does not fit in \<open>length\<close> bytes.
\<close>

definition to_bytes_big :: "int \<Rightarrow> nat \<Rightarrow> error + bytes" where
  "to_bytes_big n len =
     (if n < 0 \<or> 256 ^ len \<le> n then Inl OverflowError
      else Inr (map (\<lambda>k. char_of (n div 256 ^ (len - Suc k))) [0..<len]))"

text \<open>The slice \<open>t[:stop]\<close>; a negative \<open>stop\<close> counts from the end.\<close>

definition slice_to :: "'a list \<Rightarrow> int \<Rightarrow> 'a list" where
  "slice_to t stop =
     (if stop < 0 then take (nat (int (length t) + stop)) t else take (nat stop) t)"

text \<open>The slice \<open>t[start:]\<close> for a non-negative \<open>start\<close>.\<close>

definition slice_from :: "'a list \<Rightarrow> nat \<Rightarrow> 'a list" where
  "slice_from t start = drop start t"

text \<open>
  \<open>hashlib\<close> is not part of the library. A hash constructor is modelled by the two
  things the library reads from it: the digest of a byte string and the attribute
  \<open>digest_size\<close>. The module \<open>hashlib\<close> itself is the map from an attribute name to
  the constructor of that name (\<open>hashlib.md5\<close> is \<open>hl ''md5''\<close>).
\<close>

record hash_method =
  digest :: "bytes \<Rightarrow> bytes"
  digest_size :: int

type_synonym hashlib = "string \<Rightarrow> hash_method"

text \<open>
  \<open>b.startswith(prefix)\<close>, and \<open>b.index(bytes([c]), start)\<close>, which raises
  \<open>ValueError\<close> when the octet does not occur at or after \<open>start\<close>.
\<close>

definition startswith :: "bytes \<Rightarrow> bytes \<Rightarrow> bool" where
  "startswith b pre \<longleftrightarrow> take (length pre) b = pre"

definition index_from :: "bytes \<Rightarrow> char \<Rightarrow> nat \<Rightarrow> error + nat" where
  "index_from b c start =
     (case List.find (\<lambda>i. b ! i = c) [start..<length b] of
        None \<Rightarrow> Inl ValueError
      | Some i \<Rightarrow> Inr i)"

section \<open>rsa/common.py\<close>

text \<open>
  \<open>bin(n)\<close> for a non-negative \<open>n\<close>: the prefix \<open>0b\<close> followed by the binary digits,
  most significant first (\<open>bin(0)\<close> is \<open>0b0\<close>).
\<close>

fun bin_digits :: "nat \<Rightarrow> string" where
  "bin_digits n =
     (if n < 2 then [if n = 0 then CHR ''0'' else CHR ''1'']
      else bin_digits (n div 2) @ [if n mod 2 = 0 then CHR ''0'' else CHR ''1''])"

declare bin_digits.simps [simp del]

definition bin :: "nat \<Rightarrow> string" where
  "bin n = ''0b'' @ bin_digits n"

definition bit_size :: "int \<Rightarrow> int" where
  "bit_size num = (if num = 0 then 0 else int (length (bin (nat \<bar>num\<bar>))) - 2)"

definition byte_size :: "int \<Rightarrow> int" where
  "byte_size number = (bit_size number + 7) div 8"

definition ceil_div :: "int \<Rightarrow> int \<Rightarrow> error + int" where
  "ceil_div num d = (if d = 0 then Inl ZeroDivisionError else Inr (- ((- num) div d)))"

text \<open>
  The loop of \<open>extended_gcd\<close>. The simultaneous assignment
  \<open>a, (q, b) = b, divmod(a, b)\<close> reads the old \<open>a\<close> and \<open>b\<close> on its right-hand side.
\<close>

function extended_gcd_loop :: "int \<Rightarrow> int \<Rightarrow> int \<Rightarrow> int \<Rightarrow> int \<Rightarrow> int \<Rightarrow> int \<times> int \<times> int" where
  "extended_gcd_loop a b x y lastx lasty =
     (if b \<noteq> 0
      then extended_gcd_loop b (a mod b) (lastx - (a div b) * x) (lasty - (a div b) * y) x y
      else (a, lastx, lasty))"
  by pat_completeness auto
termination
  by (relation "measure (\<lambda>(a, b, x, y, lastx, lasty). nat \<bar>b\<bar>)") (auto simp: abs_mod_less)

declare extended_gcd_loop.simps [simp del]

definition extended_gcd :: "int \<Rightarrow> int \<Rightarrow> int \<times> int \<times> int" where
  "extended_gcd a b = extended_gcd_loop a b 0 1 1 0"

text \<open>\<open>inverse(x, n)\<close> (named \<open>inverse_mod\<close> here, \<open>inverse\<close> being HOL's field inverse); the final \<open>a % n\<close> raises \<open>ZeroDivisionError\<close> when \<open>n\<close> is zero.\<close>

definition inverse_mod :: "int \<Rightarrow> int \<Rightarrow> error + int" where
  "inverse_mod x n =
     (case extended_gcd x n of (g, a, _) \<Rightarrow>
        if g \<noteq> 1 then Inl (NotRelativePrimeError x n g)
        else if n = 0 then Inl ZeroDivisionError
        else Inr (a mod n))"

text \<open>
  \<open>crt\<close>: the first loop multiplies the moduli up, the second runs over
  \<open>zip(a_values, modulo_values)\<close> and stops at the first exception.
\<close>

fun crt_loop :: "int \<Rightarrow> (int \<times> int) list \<Rightarrow> int \<Rightarrow> error + int" where
  "crt_loop prd [] tot = Inr tot"
| "crt_loop prd ((a_i, m_i) # rest) tot =
     (if m_i = 0 then Inl ZeroDivisionError
      else (case inverse_mod (prd div m_i) m_i of
              Inl err \<Rightarrow> Inl err
            | Inr iv \<Rightarrow> crt_loop prd rest (tot + a_i * iv * (prd div m_i))))"

definition crt :: "int list \<Rightarrow> int list \<Rightarrow> error + int" where
  "crt a_values modulo_values =
     (let prd = foldl (\<lambda>prd m. prd * m) 1 modulo_values in
      (case crt_loop prd (zip a_values modulo_values) 0 of
         Inl err \<Rightarrow> Inl err
       | Inr tot \<Rightarrow> if prd = 0 then Inl ZeroDivisionError else Inr (tot mod prd)))"

section \<open>rsa/transform.py\<close>

text \<open>
  Modelled from the spec: \<open>rsa/transform.py\<close> is not among the source files. Section 4.4
  of the specification: ``\<open>bytes2int(b)\<close>: big-endian unsigned decode; empty string
  \<open>\<rightarrow>\<close> 0.''
\<close>

definition bytes2int :: "bytes \<Rightarrow> int" where
  "bytes2int b = foldl (\<lambda>acc c. acc * 256 + of_char c) 0 b"

text \<open>
  Modelled from the spec: ``\<open>int2bytes(x, fill_size)\<close>: big-endian unsigned encode of
  non-negative \<open>x\<close>, left-padded with \<open>0x00\<close> to exactly \<open>fill_size\<close> bytes. Fails
  when \<open>x\<close> does not fit.'' The specification does not name the failure; it is
  \<open>OverflowError\<close> here, also for a negative \<open>x\<close>, which has no unsigned encoding.
\<close>

definition int2bytes :: "int \<Rightarrow> int \<Rightarrow> error + bytes" where
  "int2bytes x fill_size =
     (if x < 0 \<or> fill_size < 0 \<or> 256 ^ nat fill_size \<le> x then Inl OverflowError
      else Inr (map (\<lambda>k. char_of (x div 256 ^ (nat fill_size - Suc k))) [0..<nat fill_size]))"

section \<open>rsa/randnum.py\<close>

definition read_random_bits :: "int \<Rightarrow> entropy \<Rightarrow> error + bytes \<times> entropy" where
  "read_random_bits nbits s =
     (let nbytes = nbits div 8; rbits = nbits mod 8 in
      (case urandom nbytes s of
        Inl err \<Rightarrow> Inl err
      | Inr (bytes_data, s1) \<Rightarrow>
          if rbits > 0 then
            (case urandom 1 s1 of
               Inl err \<Rightarrow> Inl err
             | Inr (one, s2) \<Rightarrow>
                 (let last_byte = of_char (one ! 0) AND (push_bit (nat rbits) 1 - 1) in
                  (case bytes_of_ints [last_byte] of
                     Inl err \<Rightarrow> Inl err
                   | Inr extra \<Rightarrow> Inr (bytes_data @ extra, s2))))
          else Inr (bytes_data, s1)))"

definition read_random_int :: "int \<Rightarrow> entropy \<Rightarrow> error + int \<times> entropy" where
  "read_random_int nbits s =
     (case read_random_bits nbits s of
        Inl err \<Rightarrow> Inl err
      | Inr (b, s1) \<Rightarrow> Inr (bytes2int b, s1))"

definition read_random_odd_int :: "int \<Rightarrow> entropy \<Rightarrow> error + int \<times> entropy" where
  "read_random_odd_int nbits s =
     (case read_random_int nbits s of
        Inl err \<Rightarrow> Inl err
      | Inr (v, s1) \<Rightarrow> Inr (v OR 1, s1))"

text \<open>
  \<open>randint(maxvalue)\<close> has one parameter. Its \<open>while True\<close> loop ends only when a draw
  falls in the range, so the result is an \<open>option\<close>: \<open>None\<close> is a loop that never
  returns.
\<close>

partial_function (option) randint_loop :: "int \<Rightarrow> int \<Rightarrow> entropy \<Rightarrow> (error + int \<times> entropy) option" where
  "randint_loop bit_sz maxvalue s =
     (case read_random_int bit_sz s of
        Inl err \<Rightarrow> Some (Inl err)
      | Inr (v, s1) \<Rightarrow>
          if 1 \<le> v \<and> v \<le> maxvalue then Some (Inr (v, s1))
          else randint_loop bit_sz maxvalue s1)"

definition randint :: "int \<Rightarrow> entropy \<Rightarrow> (error + int \<times> entropy) option" where
  "randint maxvalue s = randint_loop (bit_size maxvalue) maxvalue s"

text \<open>
  A call \<open>rsa.randnum.randint(*args)\<close> with positional arguments: Python binds them to
  the single parameter \<open>maxvalue\<close> and raises \<open>TypeError\<close> before the body runs when
  their number is not one.
\<close>

definition call_randint :: "int list \<Rightarrow> entropy \<Rightarrow> (error + int \<times> entropy) option" where
  "call_randint args s =
     (case args of
        [maxvalue] \<Rightarrow> randint maxvalue s
      | _ \<Rightarrow> Some (Inl TypeError))"

section \<open>rsa/prime.py\<close>

text \<open>
  \<open>miller_rabin_primality_testing\<close>. The first loop writes \<open>n - 1\<close> as
  \<open>2 ** r * s\<close>; on \<open>s = 0\<close> it would never end, so it is a partial function.
\<close>

partial_function (option) halve_loop :: "int \<Rightarrow> int \<Rightarrow> (int \<times> int) option" where
  "halve_loop r s = (if s mod 2 = 0 then halve_loop (r + 1) (s div 2) else Some (r, s))"

text \<open>
  The inner \<open>for _ in range(r - 1)\<close> loop with its \<open>else\<close> branch: the result says
  whether the loop left through \<open>break\<close> (\<open>Inr True\<close>) or ran to its end
  (\<open>Inr False\<close>, after which the \<open>else\<close> branch returns \<open>False\<close>).
\<close>

fun squaring_loop :: "nat \<Rightarrow> int \<Rightarrow> int \<Rightarrow> error + bool" where
  "squaring_loop 0 x n = Inr False"
| "squaring_loop (Suc j) x n =
     (case pow3 x 2 n of
        Inl err \<Rightarrow> Inl err
      | Inr x' \<Rightarrow> if x' = n - 1 then Inr True else squaring_loop j x' n)"

text \<open>The outer \<open>for _ in range(k)\<close> loop; the witness is drawn by \<open>randint(2, n - 1)\<close>.\<close>

fun rounds_loop :: "nat \<Rightarrow> int \<Rightarrow> int \<Rightarrow> int \<Rightarrow> entropy \<Rightarrow> (error + bool \<times> entropy) option" where
  "rounds_loop 0 n r s ent = Some (Inr (True, ent))"
| "rounds_loop (Suc j) n r s ent =
     (case call_randint [2, n - 1] ent of
        None \<Rightarrow> None
      | Some (Inl err) \<Rightarrow> Some (Inl err)
      | Some (Inr (a, ent1)) \<Rightarrow>
          (case pow3 a s n of
             Inl err \<Rightarrow> Some (Inl err)
           | Inr x \<Rightarrow>
               if x = 1 \<or> x = n - 1 then rounds_loop j n r s ent1
               else (case squaring_loop (nat (r - 1)) x n of
                       Inl err \<Rightarrow> Some (Inl err)
                     | Inr True \<Rightarrow> rounds_loop j n r s ent1
                     | Inr False \<Rightarrow> Some (Inr (False, ent1)))))"

definition miller_rabin_primality_testing ::
    "int \<Rightarrow> int \<Rightarrow> entropy \<Rightarrow> (error + bool \<times> entropy) option" where
  "miller_rabin_primality_testing n k ent =
     (if n = 2 \<or> n = 3 then Some (Inr (True, ent))
      else if n < 2 \<or> n mod 2 = 0 then Some (Inr (False, ent))
      else (case halve_loop 0 (n - 1) of
              None \<Rightarrow> None
            | Some (r, s) \<Rightarrow> rounds_loop (nat k) n r s ent))"

section \<open>rsa/pkcs1.py: the hash tables\<close>

text \<open>
  \<open>HASH_ASN1\<close> and \<open>HASH_METHODS\<close> in insertion order, after the \<open>update\<close> for the
  SHA-3 family (the interpreter is at least 3.6).
\<close>

definition HASH_ASN1 :: "(string \<times> bytes) list" where
  "HASH_ASN1 =
     [(''MD5'', [CHR 0x30, CHR 0x20, CHR 0x30, CHR 0x0c, CHR 0x06, CHR 0x08, CHR 0x2a, CHR 0x86,
                 CHR 0x48, CHR 0x86, CHR 0xf7, CHR 0x0d, CHR 0x02, CHR 0x05, CHR 0x05, CHR 0x00,
                 CHR 0x04, CHR 0x10]),
      (''SHA-1'', [CHR 0x30, CHR 0x21, CHR 0x30, CHR 0x09, CHR 0x06, CHR 0x05, CHR 0x2b, CHR 0x0e,
                   CHR 0x03, CHR 0x02, CHR 0x1a, CHR 0x05, CHR 0x00, CHR 0x04, CHR 0x14]),
      (''SHA-224'', [CHR 0x30, CHR 0x2d, CHR 0x30, CHR 0x0d, CHR 0x06, CHR 0x09, CHR 0x60, CHR 0x86,
                     CHR 0x48, CHR 0x01, CHR 0x65, CHR 0x03, CHR 0x04, CHR 0x02, CHR 0x04, CHR 0x05,
                     CHR 0x00, CHR 0x04, CHR 0x1c]),
      (''SHA-256'', [CHR 0x30, CHR 0x31, CHR 0x30, CHR 0x0d, CHR 0x06, CHR 0x09, CHR 0x60, CHR 0x86,
                     CHR 0x48, CHR 0x01, CHR 0x65, CHR 0x03, CHR 0x04, CHR 0x02, CHR 0x01, CHR 0x05,
                     CHR 0x00, CHR 0x04, CHR 0x20]),
      (''SHA-384'', [CHR 0x30, CHR 0x41, CHR 0x30, CHR 0x0d, CHR 0x06, CHR 0x09, CHR 0x60, CHR 0x86,
                     CHR 0x48, CHR 0x01, CHR 0x65, CHR 0x03, CHR 0x04, CHR 0x02, CHR 0x02, CHR 0x05,
                     CHR 0x00, CHR 0x04, CHR 0x30]),
      (''SHA-512'', [CHR 0x30, CHR 0x51, CHR 0x30, CHR 0x0d, CHR 0x06, CHR 0x09, CHR 0x60, CHR 0x86,
                     CHR 0x48, CHR 0x01, CHR 0x65, CHR 0x03, CHR 0x04, CHR 0x02, CHR 0x03, CHR 0x05,
                     CHR 0x00, CHR 0x04, CHR 0x40]),
      (''SHA3-256'', [CHR 0x30, CHR 0x31, CHR 0x30, CHR 0x0d, CHR 0x06, CHR 0x09, CHR 0x60, CHR 0x86,
                      CHR 0x48, CHR 0x01, CHR 0x65, CHR 0x03, CHR 0x04, CHR 0x02, CHR 0x08, CHR 0x05,
                      CHR 0x00, CHR 0x04, CHR 0x20]),
      (''SHA3-384'', [CHR 0x30, CHR 0x41, CHR 0x30, CHR 0x0d, CHR 0x06, CHR 0x09, CHR 0x60, CHR 0x86,
                      CHR 0x48, CHR 0x01, CHR 0x65, CHR 0x03, CHR 0x04, CHR 0x02, CHR 0x09, CHR 0x05,
                      CHR 0x00, CHR 0x04, CHR 0x30]),
      (''SHA3-512'', [CHR 0x30, CHR 0x51, CHR 0x30, CHR 0x0d, CHR 0x06, CHR 0x09, CHR 0x60, CHR 0x86,
                      CHR 0x48, CHR 0x01, CHR 0x65, CHR 0x03, CHR 0x04, CHR 0x02, CHR 0x0a, CHR 0x05,
                      CHR 0x00, CHR 0x04, CHR 0x40])]"

definition HASH_METHODS :: "hashlib \<Rightarrow> (string \<times> hash_method) list" where
  "HASH_METHODS hl =
     [(''MD5'', hl ''md5''), (''SHA-1'', hl ''sha1''), (''SHA-224'', hl ''sha224''),
      (''SHA-256'', hl ''sha256''), (''SHA-384'', hl ''sha384''), (''SHA-512'', hl ''sha512''),
      (''SHA3-256'', hl ''sha3_256''), (''SHA3-384'', hl ''sha3_384''),
      (''SHA3-512'', hl ''sha3_512'')]"

section \<open>rsa/pkcs1.py: padding\<close>

text \<open>
  The \<open>while\<close> loop of \<open>_pad_for_encryption\<close>. \<open>new_padding.replace(b'\x00', b'')\<close>
  drops every zero octet. The loop ends only when enough non-zero octets have been
  read, so the result is an \<open>option\<close>.
\<close>

partial_function (option) padding_loop :: "int \<Rightarrow> bytes \<Rightarrow> entropy \<Rightarrow> (error + bytes \<times> entropy) option" where
  "padding_loop padding_length padding s =
     (if int (length padding) < padding_length then
        (let needed_bytes = padding_length - int (length padding) in
         (case urandom (needed_bytes + 5) s of
            Inl err \<Rightarrow> Some (Inl err)
          | Inr (new_padding, s1) \<Rightarrow>
              (let new_padding = filter (\<lambda>c. c \<noteq> CHR 0x00) new_padding in
               padding_loop padding_length (padding @ slice_to new_padding needed_bytes) s1)))
      else Some (Inr (padding, s)))"

definition pad_for_encryption :: "bytes \<Rightarrow> int \<Rightarrow> entropy \<Rightarrow> (error + bytes \<times> entropy) option" where
  "pad_for_encryption message target_length s =
     (let max_msglength = target_length - 11;
          msglength = int (length message) in
      if msglength > max_msglength then Some (Inl OverflowError)
      else
        (let padding_length = target_length - msglength - 3 in
         (case padding_loop padding_length [] s of
            None \<Rightarrow> None
          | Some (Inl err) \<Rightarrow> Some (Inl err)
          | Some (Inr (padding, s1)) \<Rightarrow>
              Some (Inr ([CHR 0x00, CHR 0x02] @ padding @ [CHR 0x00] @ message, s1)))))"

definition pad_for_signing :: "bytes \<Rightarrow> int \<Rightarrow> error + bytes" where
  "pad_for_signing message target_length =
     (let max_msglength = target_length - 11;
          msglength = int (length message) in
      if msglength > max_msglength then Inl OverflowError
      else
        (let padding_length = target_length - msglength - 3 in
         Inr ([CHR 0x00, CHR 0x01] @ replicate (nat padding_length) (CHR 0xff) @ [CHR 0x00] @ message)))"

text \<open>
  An assumption on the random source, used where a loop waits for non-zero octets:
  the source yields a non-zero octet again and again.
\<close>

definition nonzero_again_and_again :: "entropy \<Rightarrow> bool" where
  "nonzero_again_and_again s \<longleftrightarrow> (\<forall>i. \<exists>j. i \<le> j \<and> s j \<noteq> CHR 0x00)"

section \<open>rsa/pkcs1_v2.py\<close>

text \<open>
  The loop of \<open>mgf1\<close>. \<open>counter.to_bytes(4, byteorder='big')\<close> raises
  \<open>OverflowError\<close> once the counter reaches \<open>2 ** 32\<close>, which bounds the loop.
\<close>

function mgf1_loop :: "hash_method \<Rightarrow> bytes \<Rightarrow> int \<Rightarrow> bytes \<Rightarrow> int \<Rightarrow> error + bytes" where
  "mgf1_loop hm seed len t counter =
     (if int (length t) < len then
        (case to_bytes_big counter 4 of
           Inl err \<Rightarrow> Inl err
         | Inr c \<Rightarrow> mgf1_loop hm seed len (t @ digest hm (seed @ c)) (counter + 1))
      else Inr t)"
  by pat_completeness auto
termination
  by (relation "measure (\<lambda>(hm, seed, len, t, counter). nat (256 ^ 4 - counter))")
    (auto simp: to_bytes_big_def split: if_splits)

declare mgf1_loop.simps [simp del]

text \<open>
  The body of \<open>mgf1\<close> from its first statement on, given the value \<open>table\<close> that the
  global name \<open>HASH_METHODS\<close> evaluates to.
\<close>

definition mgf1_body :: "(string \<times> hash_method) list \<Rightarrow> bytes \<Rightarrow> int \<Rightarrow> string \<Rightarrow> error + bytes" where
  "mgf1_body table seed len hasher =
     (case map_of table hasher of
        None \<Rightarrow> Inl ValueError
      | Some hm \<Rightarrow>
          (let h_len = digest_size hm in
           if len > 2 ^ 32 * h_len then Inl OverflowError
           else (case mgf1_loop hm seed len [] 0 of
                   Inl err \<Rightarrow> Inl err
                 | Inr t \<Rightarrow> Inr (slice_to t len))))"

text \<open>
  The names that \<open>rsa/pkcs1_v2.py\<close> binds at module level: the three modules of
  \<open>from rsa import common, pkcs1, transform\<close>, the function \<open>mgf1\<close> and \<open>__all__\<close>.
  The hash table is bound in \<open>rsa/pkcs1.py\<close> and would be \<open>pkcs1.HASH_METHODS\<close> here.
\<close>

definition pkcs1_v2_globals :: "string list" where
  "pkcs1_v2_globals = [''common'', ''pkcs1'', ''transform'', ''mgf1'', ''__all__'']"

text \<open>
  \<open>mgf1\<close>. Its first statement, \<open>if hasher not in HASH_METHODS\<close>, reads the bare
  global name \<open>HASH_METHODS\<close>. Python looks a global name up in the module's own
  namespace (and then among the built-in names, where there is none of that name) and
  raises \<open>NameError\<close> when the name is not bound.
\<close>

definition mgf1 :: "hashlib \<Rightarrow> bytes \<Rightarrow> int \<Rightarrow> string \<Rightarrow> error + bytes" where
  "mgf1 hl seed len hasher =
     (if ''HASH_METHODS'' \<in> set pkcs1_v2_globals
      then mgf1_body (HASH_METHODS hl) seed len hasher
      else Inl NameError)"

text \<open>
  The specification's mask: \<open>H(seed || I2OSP(0, 4)) || H(seed || I2OSP(1, 4)) || ...\<close>,
  written here from the specification's words for comparison with the code. \<open>I2OSP4 i\<close> is
  the 4-byte big-endian encoding of the counter \<open>i\<close>; \<open>mgf1_blocks\<close> is the concatenation
  of the first \<open>n\<close> blocks.
\<close>

definition I2OSP4 :: "int \<Rightarrow> bytes" where
  "I2OSP4 i = [char_of (i div 16777216), char_of (i div 65536), char_of (i div 256), char_of i]"

definition mgf1_blocks :: "hash_method \<Rightarrow> bytes \<Rightarrow> nat \<Rightarrow> bytes" where
  "mgf1_blocks hm seed n = concat (map (\<lambda>i. digest hm (seed @ I2OSP4 (int i))) [0..<n])"

section \<open>The standard library's base64 module\<close>

text \<open>
  \<open>base64.b64encode\<close> and \<open>base64.b64decode\<close> belong to the standard library, not to
  this repository. They are modelled after RFC 4648 and the library's documentation:
  the standard alphabet, \<open>=\<close> padding, and a decoder that, without \<open>validate\<close>,
  discards every character outside the alphabet, stops at the padding that completes a
  group of four, and raises \<open>binascii.Error\<close> when the data ends inside a group.
\<close>

definition b64_alphabet :: bytes where
  "b64_alphabet = ''ABCDEFGHIJKLMNOPQRSTUVWXYZabcdefghijklmnopqrstuvwxyz0123456789+/''"

definition table_b2a :: "nat \<Rightarrow> char" where
  "table_b2a i = b64_alphabet ! i"

definition table_a2b :: "char \<Rightarrow> nat option" where
  "table_a2b c = map_of (zip b64_alphabet [0..<64]) c"

fun b64encode :: "bytes \<Rightarrow> bytes" where
  "b64encode [] = []"
| "b64encode [a] =
     (let x = of_char a in
      [table_b2a (x div 4), table_b2a (x mod 4 * 16), CHR ''='', CHR ''=''])"
| "b64encode [a, b] =
     (let x = of_char a; y = of_char b in
      [table_b2a (x div 4), table_b2a (x mod 4 * 16 + y div 16), table_b2a (y mod 16 * 4),
       CHR ''=''])"
| "b64encode (a # b # c # rest) =
     (let x = of_char a; y = of_char b; z = of_char c in
      [table_b2a (x div 4), table_b2a (x mod 4 * 16 + y div 16),
       table_b2a (y mod 16 * 4 + z div 64), table_b2a (z mod 64)] @ b64encode rest)"

text \<open>
  The decoder's loop over the characters: \<open>quad_pos\<close> is the position inside the group
  of four, \<open>leftchar\<close> the bits left over from the last character, \<open>pads\<close> the number
  of \<open>=\<close> seen since the last character of the alphabet.
\<close>

fun a2b_loop :: "nat \<Rightarrow> nat \<Rightarrow> nat \<Rightarrow> bytes \<Rightarrow> bytes \<Rightarrow> error + bytes" where
  "a2b_loop quad_pos leftchar pads out [] =
     (if quad_pos \<noteq> 0 then Inl BinasciiError else Inr out)"
| "a2b_loop quad_pos leftchar pads out (this_ch # rest) =
     (if this_ch = CHR ''='' then
        (if quad_pos \<ge> 2 \<and> quad_pos + (pads + 1) \<ge> 4 then Inr out
         else a2b_loop quad_pos leftchar (if quad_pos \<ge> 2 then pads + 1 else pads) out rest)
      else
        (case table_a2b this_ch of
           None \<Rightarrow> a2b_loop quad_pos leftchar pads out rest
         | Some v \<Rightarrow>
             if quad_pos = 0 then a2b_loop 1 v 0 out rest
             else if quad_pos = 1 then
               a2b_loop 2 (v mod 16) 0 (out @ [char_of (leftchar * 4 + v div 16)]) rest
             else if quad_pos = 2 then
               a2b_loop 3 (v mod 4) 0 (out @ [char_of (leftchar * 16 + v div 4)]) rest
             else a2b_loop 0 0 0 (out @ [char_of (leftchar * 64 + v)]) rest))"

declare a2b_loop.simps(2) [simp del]

definition b64decode :: "bytes \<Rightarrow> error + bytes" where
  "b64decode s = a2b_loop 0 0 0 [] s"

text \<open>The characters an encoding can contain: the alphabet and the padding character.\<close>

definition b64_chars :: "char set" where
  "b64_chars = set b64_alphabet \<union> {CHR ''=''}"

section \<open>rsa/pem.py\<close>

text \<open>
  \<open>FlexiText\<close> is \<open>Union[str, bytes]\<close>. \<open>str.encode('ascii')\<close> raises
  \<open>UnicodeEncodeError\<close> on a character above 127.
\<close>

datatype FlexiText = Str string | Bytes bytes

definition encode_ascii :: "string \<Rightarrow> error + bytes" where
  "encode_ascii s =
     (if list_all (\<lambda>c. (of_char c :: nat) < 128) s then Inr s else Inl UnicodeEncodeError)"

text \<open>\<open>bytes.split(b'\\n')\<close>, \<open>bytes.strip()\<close> and \<open>sep.join(lines)\<close>.\<close>

fun split_newline :: "bytes \<Rightarrow> bytes list" where
  "split_newline [] = [[]]"
| "split_newline (c # cs) =
     (if c = CHR 0x0a then [] # split_newline cs
      else (case split_newline cs of
              [] \<Rightarrow> [[c]]
            | line # rest \<Rightarrow> (c # line) # rest))"

definition is_space :: "char \<Rightarrow> bool" where
  "is_space c \<longleftrightarrow> c \<in> set [CHR 0x20, CHR 0x09, CHR 0x0a, CHR 0x0d, CHR 0x0b, CHR 0x0c]"

definition strip :: "bytes \<Rightarrow> bytes" where
  "strip line = rev (dropWhile is_space (rev (dropWhile is_space line)))"

fun join_bytes :: "bytes \<Rightarrow> bytes list \<Rightarrow> bytes" where
  "join_bytes sep [] = []"
| "join_bytes sep [x] = x"
| "join_bytes sep (x # y # rest) = x @ sep @ join_bytes sep (y # rest)"

definition markers :: "FlexiText \<Rightarrow> error + bytes \<times> bytes" where
  "markers pem_marker =
     (case (case pem_marker of Str m \<Rightarrow> encode_ascii m | Bytes b \<Rightarrow> Inr b) of
        Inl err \<Rightarrow> Inl err
      | Inr pem_marker \<Rightarrow>
          Inr (''-----BEGIN '' @ pem_marker @ ''-----'', ''-----END '' @ pem_marker @ ''-----''))"

text \<open>
  The generator \<open>_pem_lines\<close>, as the list of the lines it yields; the first argument is
  the flag \<open>in_pem_part\<close>.
\<close>

fun pem_lines_loop :: "bool \<Rightarrow> bytes list \<Rightarrow> bytes \<Rightarrow> bytes \<Rightarrow> bytes list" where
  "pem_lines_loop in_pem_part [] pem_start pem_end = []"
| "pem_lines_loop in_pem_part (line # rest) pem_start pem_end =
     (let line = strip line in
      if line = pem_start then pem_lines_loop True rest pem_start pem_end
      else if in_pem_part then
        (if line = pem_end then []
         else line # pem_lines_loop in_pem_part rest pem_start pem_end)
      else pem_lines_loop in_pem_part rest pem_start pem_end)"

definition pem_lines :: "bytes \<Rightarrow> bytes \<Rightarrow> bytes \<Rightarrow> bytes list" where
  "pem_lines contents pem_start pem_end =
     pem_lines_loop False (split_newline contents) pem_start pem_end"

text \<open>
  \<open>load_pem\<close>. Whatever \<open>b64decode\<close> raises is caught and raised again as
  \<open>ValueError\<close>.
\<close>

definition load_pem :: "FlexiText \<Rightarrow> FlexiText \<Rightarrow> error + bytes" where
  "load_pem contents pem_marker =
     (case (case contents of Str c \<Rightarrow> encode_ascii c | Bytes b \<Rightarrow> Inr b) of
        Inl err \<Rightarrow> Inl err
      | Inr contents \<Rightarrow>
          (case markers pem_marker of
             Inl err \<Rightarrow> Inl err
           | Inr (pem_start, pem_end) \<Rightarrow>
               (let lines = pem_lines contents pem_start pem_end in
                if lines = [] then Inl ValueError
                else (case b64decode (concat lines) of
                        Inl err \<Rightarrow> Inl ValueError
                      | Inr decoded \<Rightarrow> Inr decoded))))"

text \<open>
  The loop of \<open>save_pem\<close> over \<open>range(0, len(b64), 64)\<close>, which appends the slice
  \<open>b64[block_start:block_start + 64]\<close> for each \<open>block_start\<close>.
\<close>

function pem_blocks :: "nat \<Rightarrow> bytes \<Rightarrow> bytes list" where
  "pem_blocks block_start b64 =
     (if block_start < length b64
      then take 64 (drop block_start b64) # pem_blocks (block_start + 64) b64
      else [])"
  by pat_completeness auto
termination
  by (relation "measure (\<lambda>(block_start, b64). length b64 - block_start)") auto

declare pem_blocks.simps [simp del]

definition save_pem :: "bytes \<Rightarrow> FlexiText \<Rightarrow> error + bytes" where
  "save_pem contents pem_marker =
     (case markers pem_marker of
        Inl err \<Rightarrow> Inl err
      | Inr (pem_start, pem_end) \<Rightarrow>
          (let b64 = filter (\<lambda>c. c \<noteq> CHR 0x0a) (b64encode contents);
               lines = [pem_start] @ pem_blocks 0 b64 @ [pem_end] in
           Inr (join_bytes [CHR 0x0a] lines @ [CHR 0x0a])))"

section \<open>rsa/core.py and rsa/key.py\<close>

text \<open>
  Modelled from the spec: \<open>rsa/core.py\<close> is not among the source files. Section 4.8 of
  the specification gives the two operations as modular exponentiations:
  ``\<open>c = m\<^sup>e mod n\<close>'' for encryption and ``\<open>em' = s\<^sup>e mod n\<close>'' for verification.
\<close>

definition encrypt_int :: "int \<Rightarrow> int \<Rightarrow> int \<Rightarrow> error + int" where
  "encrypt_int message ekey n = pow3 message ekey n"

definition decrypt_int :: "int \<Rightarrow> int \<Rightarrow> int \<Rightarrow> error + int" where
  "decrypt_int cyphertext dkey n = pow3 cyphertext dkey n"

text \<open>
  Modelled from the spec: \<open>rsa/key.py\<close> is not among the source files. Section 3 of the
  specification lists the attributes of the two key classes. The cached blinding pair
  \<open>(blindfac, blindfac_inverse)\<close> is ``initialized lazily'': it is \<open>None\<close> until the
  first private-key operation.
\<close>

record PublicKey =
  pub_n :: int
  pub_e :: int

record PrivateKey =
  priv_n :: int
  priv_e :: int
  priv_d :: int
  priv_p :: int
  priv_q :: int
  priv_exp1 :: int
  priv_exp2 :: int
  priv_coef :: int
  blinding :: "(int \<times> int) option"

text \<open>
  Modelled from the spec, section 4.5: ``Initialize lazily by \<open>randint(1, n - 1)\<close>
  rejecting non-coprime draws.'' The draw is the library's \<open>randint(n - 1)\<close>; the loop
  ends only on a draw that is coprime to \<open>n\<close>.
\<close>

partial_function (option) initial_blinding_factor :: "int \<Rightarrow> entropy \<Rightarrow> (error + int \<times> entropy) option" where
  "initial_blinding_factor n s =
     (case randint (n - 1) s of
        None \<Rightarrow> None
      | Some (Inl err) \<Rightarrow> Some (Inl err)
      | Some (Inr (r, s1)) \<Rightarrow>
          if gcd r n = 1 then Some (Inr (r, s1)) else initial_blinding_factor n s1)"

text \<open>
  Modelled from the spec, section 4.5: ``Maintain a cached pair \<open>(r, r\<^sup>-\<^sup>1)\<close> ... On
  each use: square both members (\<open>r \<leftarrow> r\<^sup>2 mod n\<close>, \<open>r\<^sup>-\<^sup>1 \<leftarrow> (r\<^sup>-\<^sup>1)\<^sup>2 mod n\<close>) and
  cache the squared pair.'' The inverse of a fresh \<open>r\<close> is \<open>inverse(r, n)\<close> of
  \<open>rsa/common.py\<close>. The result is the pair to use, the key with the new cache, and the
  rest of the random source.
\<close>

definition update_blinding_factor ::
    "PrivateKey \<Rightarrow> entropy \<Rightarrow> (error + (int \<times> int) \<times> PrivateKey \<times> entropy) option" where
  "update_blinding_factor key s =
     (let n = priv_n key in
      (case (case blinding key of
               Some pair \<Rightarrow> Some (Inr (pair, s))
             | None \<Rightarrow>
                 (case initial_blinding_factor n s of
                    None \<Rightarrow> None
                  | Some (Inl err) \<Rightarrow> Some (Inl err)
                  | Some (Inr (r, s1)) \<Rightarrow>
                      (case inverse_mod r n of
                         Inl err \<Rightarrow> Some (Inl err)
                       | Inr r_inv \<Rightarrow> Some (Inr ((r, r_inv), s1))))) of
         None \<Rightarrow> None
       | Some (Inl err) \<Rightarrow> Some (Inl err)
       | Some (Inr ((r, r_inv), s1)) \<Rightarrow>
           (let pair = (r * r mod n, r_inv * r_inv mod n) in
            Some (Inr (pair, key\<lparr>blinding := Some pair\<rparr>, s1)))))"

text \<open>
  Modelled from the spec, section 4.5: ``CRT fast path for \<open>x\<^sup>d mod n\<close>: compute
  \<open>m1 = x^exp1 mod p\<close>, \<open>m2 = x^exp2 mod q\<close>, \<open>h = coef * (m1 - m2) mod p\<close>, result
  \<open>m2 + h * q\<close>.''
\<close>

definition crt_fast_path :: "PrivateKey \<Rightarrow> int \<Rightarrow> int" where
  "crt_fast_path key x =
     (let m1 = modpow x (nat (priv_exp1 key)) (priv_p key);
          m2 = modpow x (nat (priv_exp2 key)) (priv_q key);
          h = priv_coef key * (m1 - m2) mod priv_p key
      in m2 + h * priv_q key)"

text \<open>
  Modelled from the spec, section 4.5: ``\<open>blinded_decrypt(c)\<close>: compute
  \<open>m = (c * r\<^sup>e)\<^sup>d mod n\<close> via CRT fast path, return \<open>m * r\<^sup>-\<^sup>1 mod n\<close>.'' The product
  \<open>c * r\<^sup>e\<close> is reduced modulo \<open>n\<close> before the exponentiation.
\<close>

definition blinded_decrypt ::
    "PrivateKey \<Rightarrow> int \<Rightarrow> entropy \<Rightarrow> (error + int \<times> PrivateKey \<times> entropy) option" where
  "blinded_decrypt key c s =
     (case update_blinding_factor key s of
        None \<Rightarrow> None
      | Some (Inl err) \<Rightarrow> Some (Inl err)
      | Some (Inr ((r, r_inv), key1, s1)) \<Rightarrow>
          (let n = priv_n key;
               x = c * modpow r (nat (priv_e key)) n mod n;
               m = crt_fast_path key x
           in Some (Inr (m * r_inv mod n, key1, s1))))"

section \<open>rsa/pkcs1.py: encryption, decryption and verification\<close>

definition encrypt :: "bytes \<Rightarrow> PublicKey \<Rightarrow> entropy \<Rightarrow> (error + bytes \<times> entropy) option" where
  "encrypt message pub_key s =
     (let keylength = byte_size (pub_n pub_key) in
      (case pad_for_encryption message keylength s of
         None \<Rightarrow> None
       | Some (Inl err) \<Rightarrow> Some (Inl err)
       | Some (Inr (padded, s1)) \<Rightarrow>
           (let payload = bytes2int padded in
            (case encrypt_int payload (pub_e pub_key) (pub_n pub_key) of
               Inl err \<Rightarrow> Some (Inl err)
             | Inr encrypted \<Rightarrow>
                 (case int2bytes encrypted keylength of
                    Inl err \<Rightarrow> Some (Inl err)
                  | Inr block \<Rightarrow> Some (Inr (block, s1)))))))"

text \<open>
  \<open>decrypt\<close>. The private key comes back with its blinding cache updated. The
  \<open>ValueError\<close> of \<open>cleartext.index(b'\\x00', 2)\<close> is caught and raised again as
  \<open>DecryptionError\<close>.
\<close>

definition decrypt ::
    "bytes \<Rightarrow> PrivateKey \<Rightarrow> entropy \<Rightarrow> (error + bytes \<times> PrivateKey \<times> entropy) option" where
  "decrypt crypto priv_key s =
     (let blocksize = byte_size (priv_n priv_key);
          encrypted = bytes2int crypto in
      (case blinded_decrypt priv_key encrypted s of
         None \<Rightarrow> None
       | Some (Inl err) \<Rightarrow> Some (Inl err)
       | Some (Inr (decrypted, key1, s1)) \<Rightarrow>
           (case int2bytes decrypted blocksize of
              Inl err \<Rightarrow> Some (Inl err)
            | Inr cleartext \<Rightarrow>
                if take 2 cleartext \<noteq> [CHR 0x00, CHR 0x02] then Some (Inl DecryptionError)
                else (case index_from cleartext (CHR 0x00) 2 of
                        Inl err \<Rightarrow> Some (Inl DecryptionError)
                      | Inr sep_idx \<Rightarrow> Some (Inr (slice_from cleartext (sep_idx + 1), key1, s1))))))"

text \<open>\<open>compute_hash\<close> for a message given as a byte string.\<close>

definition compute_hash :: "hashlib \<Rightarrow> bytes \<Rightarrow> string \<Rightarrow> error + bytes" where
  "compute_hash hl message method_name =
     (case map_of (HASH_METHODS hl) method_name of
        None \<Rightarrow> Inl ValueError
      | Some hm \<Rightarrow> Inr (digest hm message))"

text \<open>\<open>_find_method_hash\<close>: the loop over \<open>HASH_ASN1.items()\<close>.\<close>

fun find_method_hash_loop :: "(string \<times> bytes) list \<Rightarrow> bytes \<Rightarrow> error + string" where
  "find_method_hash_loop [] clearsig = Inl VerificationError"
| "find_method_hash_loop ((hashname, asn1code) # rest) clearsig =
     (if startswith clearsig asn1code then Inr hashname
      else find_method_hash_loop rest clearsig)"

definition find_method_hash :: "bytes \<Rightarrow> error + string" where
  "find_method_hash clearsig = find_method_hash_loop HASH_ASN1 clearsig"

definition verify :: "hashlib \<Rightarrow> bytes \<Rightarrow> bytes \<Rightarrow> PublicKey \<Rightarrow> error + string" where
  "verify hl message signature pub_key =
     (let blocksize = byte_size (pub_n pub_key);
          encrypted = bytes2int signature in
      (case decrypt_int encrypted (pub_e pub_key) (pub_n pub_key) of
         Inl err \<Rightarrow> Inl err
       | Inr decrypted \<Rightarrow>
           (case int2bytes decrypted blocksize of
              Inl err \<Rightarrow> Inl err
            | Inr clearsig \<Rightarrow>
                (case find_method_hash clearsig of
                   Inl err \<Rightarrow> Inl err
                 | Inr method_name \<Rightarrow>
                     (case compute_hash hl message method_name of
                        Inl err \<Rightarrow> Inl err
                      | Inr message_hash \<Rightarrow>
                          (case map_of HASH_ASN1 method_name of
                             None \<Rightarrow> Inl KeyError
                           | Some asn1code \<Rightarrow>
                               (case pad_for_signing (asn1code @ message_hash) blocksize of
                                  Inl err \<Rightarrow> Inl err
                                | Inr expected \<Rightarrow>
                                    if expected \<noteq> clearsig then Inl VerificationError
                                    else Inr method_name)))))))"

text \<open>
  A small private key for concrete evaluations: \<open>p = 4099\<close>, \<open>q = 4111\<close>,
  \<open>n = p * q\<close> (four bytes), \<open>e = 65537\<close>, \<open>d = e\<^sup>-\<^sup>1 mod (p - 1)(q - 1)\<close>,
  \<open>exp1 = d mod (p - 1)\<close>, \<open>exp2 = d mod (q - 1)\<close>, \<open>coef = q\<^sup>-\<^sup>1 mod p\<close>, and a blinding
  cache that has not been initialized.
\<close>

definition example_private_key :: PrivateKey where
  "example_private_key =
     \<lparr>priv_n = 16850989, priv_e = 65537, priv_d = 15665993, priv_p = 4099, priv_q = 4111,
      priv_exp1 = 3437, priv_exp2 = 2783, priv_coef = 1708, blinding = None\<rparr>"

section \<open>Properties of rsa/common.py\<close>

lemma crt_doctest_1: "crt [2, 3] [3, 5] = Inr 8"
  by code_simp

lemma crt_doctest_2: "crt [2, 3, 2] [3, 5, 7] = Inr 23"
  by code_simp

lemma crt_doctest_3: "crt [2, 3, 0] [7, 11, 15] = Inr 135"
  by code_simp

lemma extended_gcd_loop_gcd:
  "0 \<le> a \<Longrightarrow> 0 \<le> b \<Longrightarrow> fst (extended_gcd_loop a b x y lastx lasty) = gcd a b"
proof (induction a b x y lastx lasty rule: extended_gcd_loop.induct)
  case (1 a b x y lastx lasty)
  show ?case
  proof (cases "b = 0")
    case True
    with "1.prems" show ?thesis by (simp add: extended_gcd_loop.simps)
  next
    case False
    with "1.prems" have "0 < b" by simp
    then have "0 \<le> a mod b" by simp
    with "1.IH" [OF False] "1.prems" have
      "fst (extended_gcd_loop b (a mod b) (lastx - (a div b) * x) (lasty - (a div b) * y) x y) = gcd b (a mod b)"
      by simp
    moreover have "gcd b (a mod b) = gcd a b"
      by (metis gcd_red_int)
    ultimately show ?thesis using False
      by (subst extended_gcd_loop.simps) simp
  qed
qed

lemma inverse_mod_not_coprime:
  assumes "0 \<le> x" "0 < n" "gcd x n \<noteq> 1"
  shows "inverse_mod x n = Inl (NotRelativePrimeError x n (gcd x n))"
proof -
  have "fst (extended_gcd x n) = gcd x n"
    using assms by (simp add: extended_gcd_def extended_gcd_loop_gcd)
  then show ?thesis using assms
    by (auto simp: inverse_mod_def split: prod.splits)
qed

lemma inverse_mod_coprime:
  assumes "0 \<le> x" "0 < n" "gcd x n = 1"
  shows "\<exists>v. inverse_mod x n = Inr v"
proof -
  have "fst (extended_gcd x n) = gcd x n"
    using assms by (simp add: extended_gcd_def extended_gcd_loop_gcd)
  then show ?thesis using assms
    by (auto simp: inverse_mod_def split: prod.splits)
qed

lemma crt_loop_not_coprime:
  assumes "0 < prd" "\<forall>(a, m) \<in> set ams. 0 < m"
    and "\<exists>(a, m) \<in> set ams. gcd (prd div m) m \<noteq> 1"
  shows "\<exists>(a, m) \<in> set ams.
           crt_loop prd ams tot = Inl (NotRelativePrimeError (prd div m) m (gcd (prd div m) m))"
  using assms
proof (induction ams arbitrary: tot)
  case Nil
  then show ?case by simp
next
  case (Cons am ams)
  obtain a m where am: "am = (a, m)" by (cases am)
  from Cons.prems am have m: "0 < m" by simp
  with \<open>0 < prd\<close> have p: "0 \<le> prd div m"
    by (simp add: pos_imp_zdiv_nonneg_iff)
  show ?case
  proof (cases "gcd (prd div m) m = 1")
    case False
    then show ?thesis using am m p
      by (simp add: inverse_mod_not_coprime)
  next
    case True
    then obtain v where v: "inverse_mod (prd div m) m = Inr v"
      using inverse_mod_coprime [OF p m True] by blast
    from Cons.prems True am have ex: "\<exists>(a, m) \<in> set ams. gcd (prd div m) m \<noteq> 1"
      by auto
    from Cons.prems have pos: "\<forall>(a, m) \<in> set ams. 0 < m" by simp
    from Cons.IH [OF \<open>0 < prd\<close> pos ex, of "tot + a * v * (prd div m)"]
    show ?thesis using am m v by auto
  qed
qed

lemma foldl_times_prod_list: "foldl (\<lambda>prd m. prd * m) c ms = c * prod_list (ms :: int list)"
  by (induction ms arbitrary: c) (simp_all add: mult.assoc)

lemma prod_list_pos: "\<forall>m \<in> set ms. 0 < m \<Longrightarrow> 0 < prod_list (ms :: int list)"
  by (induction ms) simp_all

lemma prod_list_nth_split:
  "i < length ms \<Longrightarrow> prod_list (ms :: int list) = ms ! i * prod_list (take i ms @ drop (Suc i) ms)"
proof -
  assume "i < length ms"
  then have "ms = take i ms @ ms ! i # drop (Suc i) ms"
    by (simp add: id_take_nth_drop)
  then have "prod_list ms = prod_list (take i ms @ ms ! i # drop (Suc i) ms)" by simp
  then show ?thesis by (simp add: mult.left_commute)
qed

lemma dvd_prod_list_member: "x \<in> set xs \<Longrightarrow> x dvd prod_list (xs :: int list)"
  by (induction xs) auto

lemma other_modulus_dvd:
  assumes "i < length ms" "j < length ms" "i \<noteq> j" "\<forall>m \<in> set ms. 0 < m"
  shows "ms ! j dvd prod_list (ms :: int list) div ms ! i"
proof -
  have pos: "0 < ms ! i" using assms by simp
  have "prod_list ms div ms ! i = prod_list (take i ms @ drop (Suc i) ms)"
    using prod_list_nth_split [OF assms(1)] pos by simp
  moreover have "ms ! j \<in> set (take i ms @ drop (Suc i) ms)"
  proof (cases "j < i")
    case True
    then have "ms ! j = take i ms ! j" by simp
    moreover have "j < length (take i ms)" using True assms by simp
    ultimately show ?thesis by (metis Un_iff nth_mem set_append)
  next
    case False
    with assms have "Suc i \<le> j" by simp
    then obtain d where "j = Suc i + d" by (metis le_Suc_ex)
    then have "ms ! j = drop (Suc i) ms ! d" "d < length (drop (Suc i) ms)"
      using assms by simp_all
    then show ?thesis by (metis Un_iff nth_mem set_append)
  qed
  ultimately show ?thesis by (metis dvd_prod_list_member)
qed

text \<open>
  Claim C9. When the residue and modulus lists have the same positive length, every
  modulus is positive and two moduli at different positions share a factor greater than
  one, \<open>crt\<close> returns no value: it raises the \<open>NotRelativePrimeError\<close> of
  \<open>inverse(prod // m_i, m_i)\<close> for some position \<open>i\<close>.
\<close>

theorem crt_not_coprime_raises:
  assumes len: "length a_values = length modulo_values" and ne: "modulo_values \<noteq> []"
    and pos: "\<forall>m \<in> set modulo_values. 0 < m"
    and shared: "\<exists>i j. i < length modulo_values \<and> j < length modulo_values \<and> i \<noteq> j
                  \<and> gcd (modulo_values ! i) (modulo_values ! j) \<noteq> 1"
  shows "\<exists>i < length modulo_values.
           crt a_values modulo_values =
             Inl (NotRelativePrimeError (prod_list modulo_values div modulo_values ! i)
                    (modulo_values ! i)
                    (gcd (prod_list modulo_values div modulo_values ! i) (modulo_values ! i)))"
proof -
  let ?ms = modulo_values
  let ?prd = "prod_list ?ms"
  have prd: "foldl (\<lambda>prd m. prd * m) 1 ?ms = ?prd" by (simp add: foldl_times_prod_list)
  have prd_pos: "0 < ?prd" using pos by (rule prod_list_pos)
  from shared obtain i j where ij: "i < length ?ms" "j < length ?ms" "i \<noteq> j"
    "gcd (?ms ! i) (?ms ! j) \<noteq> 1" by blast
  have "?ms ! j dvd ?prd div ?ms ! i" using other_modulus_dvd [OF ij(1-3) pos] .
  then have "gcd (?ms ! i) (?ms ! j) dvd gcd (?prd div ?ms ! i) (?ms ! i)"
    by (metis dvd_trans gcd_dvd1 gcd_dvd2 gcd_greatest)
  with ij(4) have bad: "gcd (?prd div ?ms ! i) (?ms ! i) \<noteq> 1"
    by (metis gcd_ge_0_int zdvd1_eq abs_of_nonneg)
  have zpos: "\<forall>(a, m) \<in> set (zip a_values ?ms). 0 < m"
    using pos by (auto dest: set_zip_rightD)
  have "(a_values ! i, ?ms ! i) \<in> set (zip a_values ?ms)"
    using ij(1) len by (metis in_set_zip fst_conv snd_conv)
  with bad have ex: "\<exists>(a, m) \<in> set (zip a_values ?ms). gcd (?prd div m) m \<noteq> 1" by auto
  from crt_loop_not_coprime [OF prd_pos zpos ex, of 0]
  obtain a m where am: "(a, m) \<in> set (zip a_values ?ms)"
    "crt_loop ?prd (zip a_values ?ms) 0 = Inl (NotRelativePrimeError (?prd div m) m (gcd (?prd div m) m))"
    by auto
  from am(1) obtain k where k: "k < length ?ms" "?ms ! k = m"
    by (metis in_set_conv_nth set_zip_rightD)
  have "crt a_values ?ms = Inl (NotRelativePrimeError (?prd div m) m (gcd (?prd div m) m))"
    using am(2) prd by (simp add: crt_def Let_def)
  with k show ?thesis by auto
qed

theorem crt_not_coprime_raises_witness:
  "\<exists>i < length [4, 6 :: int].
     crt [1, 2] [4, 6] =
       Inl (NotRelativePrimeError (prod_list [4, 6] div [4, 6] ! i) ([4, 6] ! i)
              (gcd (prod_list [4, 6] div [4, 6] ! i) ([4, 6] ! i)))"
proof -
  have g: "gcd (4 :: int) 6 \<noteq> 1" by code_simp
  have "\<exists>i j. i < length [4, 6 :: int] \<and> j < length [4, 6 :: int] \<and> i \<noteq> j
          \<and> gcd ([4, 6 :: int] ! i) ([4, 6] ! j) \<noteq> 1"
    by (rule exI [of _ 0], rule exI [of _ 1]) (simp add: g)
  then show ?thesis
    using crt_not_coprime_raises [of "[1, 2]" "[4, 6]"] by simp
qed

section \<open>Properties of rsa/randnum.py\<close>

lemma ceil8_rem:
  assumes "0 < (nbits::int) mod 8" shows "(nbits + 7) div 8 = nbits div 8 + 1"
proof -
  define q r where "q = nbits div 8" and "r = nbits mod 8"
  have "nbits = 8 * q + r" by (simp add: q_def r_def)
  moreover have "0 < r" "r < 8" using assms by (simp_all add: r_def)
  ultimately have "nbits + 7 = 8 * (q + 1) + (r - 1)" "0 \<le> r - 1" "r - 1 < 8" by simp_all
  then have "(nbits + 7) div 8 = q + 1" by (rule int_div_pos_eq)
  then show ?thesis by (simp add: q_def)
qed

lemma ceil8_norem:
  assumes "\<not> 0 < (nbits::int) mod 8" shows "(nbits + 7) div 8 = nbits div 8"
proof -
  define q r where "q = nbits div 8" and "r = nbits mod 8"
  have "nbits = 8 * q + r" by (simp add: q_def r_def)
  moreover have "0 \<le> r" by (simp add: r_def)
  moreover have "r = 0" using assms \<open>0 \<le> r\<close> by (simp add: r_def)
  ultimately have "nbits + 7 = 8 * q + 7" "(0::int) \<le> 7" "(7::int) < 8" by simp_all
  then have "(nbits + 7) div 8 = q" by (rule int_div_pos_eq)
  then show ?thesis by (simp add: q_def)
qed

lemma of_char_int_bounds: "0 \<le> (of_char c :: int)" "(of_char c :: int) < 256"
proof -
  have h: "(of_char c :: int) = int (of_char c)" by (rule of_nat_of_char [symmetric])
  show "0 \<le> (of_char c :: int)" unfolding h by (rule of_nat_0_le_iff)
  show "(of_char c :: int) < 256" unfolding h using nat_of_char_less_256 [of c] by linarith
qed

lemma masked_byte_bounds:
  "0 \<le> (of_char c :: int) AND m" "(of_char c :: int) AND m < 256"
proof -
  show "0 \<le> (of_char c :: int) AND m"
    unfolding and_nonnegative_int_iff using of_char_int_bounds(1) [of c] by blast
  have "(of_char c :: int) AND m \<le> of_char c"
    using of_char_int_bounds(1) [of c] by (rule AND_upper1)
  then show "(of_char c :: int) AND m < 256"
    using of_char_int_bounds(2) [of c] by linarith
qed

lemma urandom_nonneg:
  "0 \<le> sz \<Longrightarrow> urandom sz s = Inr (map s [0..<nat sz], \<lambda>i. s (i + nat sz))"
  by (simp add: urandom_def)

lemma urandom_one: "urandom 1 s = Inr ([s 0], \<lambda>i. s (i + 1))"
  by (simp add: urandom_def)

lemma bytes_of_ints_masked:
  "bytes_of_ints [(of_char c :: int) AND m] = Inr [char_of ((of_char c :: int) AND m)]"
  using masked_byte_bounds [of c m] by (simp add: bytes_of_ints_def)

lemma read_random_bits_eq:
  assumes "0 \<le> nbits"
  shows "read_random_bits nbits s =
           Inr (map s [0..<nat (nbits div 8)] @
                  (if 0 < nbits mod 8
                   then [char_of ((of_char (s (nat (nbits div 8))) :: int) AND (2 ^ nat (nbits mod 8) - 1))]
                   else []),
                \<lambda>i. s (i + nat ((nbits + 7) div 8)))"
proof -
  from assms have d: "0 \<le> nbits div 8" by simp
  note u = urandom_nonneg [OF d, of s]
  show ?thesis
  proof (cases "0 < nbits mod 8")
    case True
    then have "(nbits + 7) div 8 = nbits div 8 + 1" by (rule ceil8_rem)
    then have n: "nat ((nbits + 7) div 8) = Suc (nat (nbits div 8))" using d by simp
    have p: "push_bit (nat (nbits mod 8)) (1 :: int) = 2 ^ nat (nbits mod 8)"
      by (simp add: push_bit_eq_mult)
    show ?thesis
      unfolding read_random_bits_def Let_def u n p
      using True by (simp add: urandom_one bytes_of_ints_masked)
  next
    case False
    then have "(nbits + 7) div 8 = nbits div 8" by (rule ceil8_norem)
    then show ?thesis
      unfolding read_random_bits_def Let_def u
      using False by simp
  qed
qed

text \<open>
  The part of claim C5 that the code keeps: for a non-negative \<open>nbits\<close>,
  \<open>read_random_bits\<close> returns \<open>ceil(nbits / 8)\<close> bytes.
\<close>

lemma read_random_bits_length:
  assumes "0 \<le> nbits" "read_random_bits nbits s = Inr (b, s')"
  shows "int (length b) = (nbits + 7) div 8"
proof -
  from assms(1) have d: "0 \<le> nbits div 8" by simp
  from assms(2) have b: "b = map s [0..<nat (nbits div 8)] @
      (if 0 < nbits mod 8
       then [char_of ((of_char (s (nat (nbits div 8))) :: int) AND (2 ^ nat (nbits mod 8) - 1))]
       else [])"
    unfolding read_random_bits_eq [OF assms(1)] by simp
  show ?thesis
  proof (cases "0 < nbits mod 8")
    case True
    then show ?thesis using b d by (simp add: ceil8_rem)
  next
    case False
    then show ?thesis using b d by (simp add: ceil8_norem)
  qed
qed

text \<open>
  Claim C5 at \<open>nbits = 9\<close> with a random source that yields \<open>0xFF\<close> octets: the masked
  octet is appended after the whole octets, so it is the low-order octet of the big-endian
  value, and the value \<open>0xFF01\<close> is not below \<open>2 ^ 9\<close>.
\<close>

theorem read_random_bits_exceeds_nbits:
  "read_random_bits 9 (\<lambda>_. CHR 0xFF) = Inr ([CHR 0xFF, CHR 0x01], \<lambda>_. CHR 0xFF)
   \<and> bytes2int [CHR 0xFF, CHR 0x01] = 65281 \<and> (2 :: int) ^ 9 \<le> 65281"
  by (simp add: read_random_bits_def urandom_def bytes_of_ints_def Let_def char_of_eq_iff
        bytes2int_def)

section \<open>Properties of rsa/prime.py\<close>

lemma halve_loop_returns:
  "0 < s \<Longrightarrow> \<exists>r' s'. halve_loop r s = Some (r', s')"
proof (induction "nat s" arbitrary: r s rule: less_induct)
  case less
  show ?case
  proof (cases "s mod 2 = 0")
    case False
    then show ?thesis by (subst halve_loop.simps) simp
  next
    case True
    with less.prems have "0 < s div 2" "s div 2 < s" by presburger+
    then have "0 < s div 2" "nat (s div 2) < nat s" by simp_all
    from less.hyps [OF this(2) this(1), of "r + 1"] True show ?thesis
      by (subst halve_loop.simps) simp
  qed
qed

text \<open>
  Claim C10. For an odd \<open>n\<close> of at least 5 and zero rounds,
  \<open>miller_rabin_primality_testing\<close> returns \<open>True\<close> and leaves the random source as it
  was: no witness is drawn, whether \<open>n\<close> is prime or composite.
\<close>

theorem miller_rabin_zero_rounds:
  assumes "odd n" "5 \<le> n"
  shows "miller_rabin_primality_testing n 0 ent = Some (Inr (True, ent))"
proof -
  from assms have "0 < n - 1" by simp
  then obtain r s where "halve_loop 0 (n - 1) = Some (r, s)"
    using halve_loop_returns by blast
  moreover from assms have "n \<noteq> 2" "n \<noteq> 3" "\<not> n < 2" "n mod 2 \<noteq> 0"
    by presburger+
  ultimately show ?thesis
    by (simp add: miller_rabin_primality_testing_def)
qed

theorem miller_rabin_zero_rounds_witness:
  "miller_rabin_primality_testing 9 0 (\<lambda>_. CHR 0x07) = Some (Inr (True, \<lambda>_. CHR 0x07))"
  using miller_rabin_zero_rounds [of 9 "\<lambda>_. CHR 0x07"] by simp

text \<open>
  Claim C4. For an odd \<open>n\<close> of at least 5 and at least one round, the first round's call
  \<open>randint(2, n - 1)\<close> passes two arguments to the one-parameter \<open>randint\<close>: the test
  raises \<open>TypeError\<close> and draws no witness at all.
\<close>

theorem miller_rabin_witness_draw_raises:
  assumes "odd n" "5 \<le> n" "1 \<le> k"
  shows "miller_rabin_primality_testing n k ent = Some (Inl TypeError)"
proof -
  from assms have "0 < n - 1" by simp
  then obtain r s where "halve_loop 0 (n - 1) = Some (r, s)"
    using halve_loop_returns by blast
  moreover from assms have "n \<noteq> 2" "n \<noteq> 3" "\<not> n < 2" "n mod 2 \<noteq> 0"
    by presburger+
  moreover from assms obtain j where "nat k = Suc j"
    by (cases "nat k") auto
  ultimately show ?thesis
    by (simp add: miller_rabin_primality_testing_def call_randint_def)
qed

theorem miller_rabin_witness_draw_raises_witness:
  "miller_rabin_primality_testing 5 1 (\<lambda>_. CHR 0x07) = Some (Inl TypeError)"
  using miller_rabin_witness_draw_raises [of 5 1 "\<lambda>_. CHR 0x07"] by simp

section \<open>Properties of the padding in rsa/pkcs1.py\<close>

lemma nonzero_again_shift:
  "nonzero_again_and_again s \<Longrightarrow> nonzero_again_and_again (\<lambda>i. s (i + n))"
  unfolding nonzero_again_and_again_def
proof
  fix i assume a: "\<forall>i. \<exists>j. i \<le> j \<and> s j \<noteq> CHR 0x00"
  then obtain j where j: "i + n \<le> j" "s j \<noteq> CHR 0x00" by blast
  then have "i \<le> j - n \<and> s (j - n + n) \<noteq> CHR 0x00" by simp
  then show "\<exists>j. i \<le> j \<and> s (j + n) \<noteq> CHR 0x00" by blast
qed

text \<open>One pass of the loop body, spelled out.\<close>

lemma padding_loop_step:
  assumes "int (length padding) < L"
  shows "padding_loop L padding s =
           padding_loop L
             (padding @ take (nat (L - int (length padding)))
                (filter (\<lambda>c. c \<noteq> CHR 0x00) (map s [0..<nat (L - int (length padding) + 5)])))
             (\<lambda>i. s (i + nat (L - int (length padding) + 5)))"
  using assms
  by (subst padding_loop.simps) (simp add: urandom_def slice_to_def Let_def)

lemma padding_loop_done:
  assumes "\<not> int (length padding) < L"
  shows "padding_loop L padding s = Some (Inr (padding, s))"
  using assms by (subst padding_loop.simps) simp

lemma padding_loop_returns:
  assumes "nonzero_again_and_again s" "CHR 0x00 \<notin> set padding" "int (length padding) \<le> L"
  shows "\<exists>ps n. padding_loop L padding s = Some (Inr (ps, \<lambda>i. s (i + n)))
           \<and> int (length ps) = L \<and> CHR 0x00 \<notin> set ps"
  using assms
proof (induction "nat (L - int (length padding))" arbitrary: padding s rule: less_induct)
  case outer: less
  show ?case
  proof (cases "int (length padding) < L")
    case False
    with outer.prems have "int (length padding) = L" by simp
    moreover have "padding_loop L padding s = Some (Inr (padding, \<lambda>i. s (i + 0)))"
      using False by (simp add: padding_loop_done)
    ultimately show ?thesis using outer.prems(2) by blast
  next
    case True
    define needed where "needed = nat (L - int (length padding))"
    have needed: "0 < needed" "L - int (length padding) = int needed"
      using True by (simp_all add: needed_def)
    from outer.prems(1) obtain j0 where "s j0 \<noteq> CHR 0x00"
      unfolding nonzero_again_and_again_def by blast
    then show ?thesis using outer.prems(1)
    proof (induction j0 arbitrary: s rule: less_induct)
      case inner: (less j0)
      define chunk where "chunk = filter (\<lambda>c. c \<noteq> CHR 0x00) (map s [0..<needed + 5])"
      define s1 where "s1 = (\<lambda>i. s (i + (needed + 5)))"
      have step: "padding_loop L padding s = padding_loop L (padding @ take needed chunk) s1"
        using padding_loop_step [OF True, of s]
        by (simp add: needed chunk_def s1_def nat_add_distrib)
      have fair1: "nonzero_again_and_again s1"
        unfolding s1_def using inner.prems(2) by (rule nonzero_again_shift)
      show ?case
      proof (cases "chunk = []")
        case True
        then have zeros: "\<forall>i < needed + 5. s i = CHR 0x00"
          by (auto simp: chunk_def filter_empty_conv)
        with inner.prems(1) have "needed + 5 \<le> j0" by (metis not_le)
        then have "j0 - (needed + 5) < j0" "s1 (j0 - (needed + 5)) \<noteq> CHR 0x00"
          using inner.prems(1) needed(1) by (simp_all add: s1_def)
        from inner.IH [OF this fair1] obtain ps n where
          "padding_loop L padding s1 = Some (Inr (ps, \<lambda>i. s1 (i + n)))"
          "int (length ps) = L" "CHR 0x00 \<notin> set ps" by blast
        moreover have "(\<lambda>i. s1 (i + n)) = (\<lambda>i. s (i + (n + (needed + 5))))"
          by (simp add: s1_def add.assoc)
        ultimately show ?thesis using step True by auto
      next
        case False
        define padding' where "padding' = padding @ take needed chunk"
        have "0 < length (take needed chunk)" using False needed(1) by (cases chunk) simp_all
        moreover have "length (take needed chunk) \<le> needed" by simp
        ultimately have len: "int (length padding) < int (length padding')"
          "int (length padding') \<le> L"
          using needed(2) by (simp_all add: padding'_def)
        then have less: "nat (L - int (length padding')) < nat (L - int (length padding))"
          using \<open>int (length padding) < L\<close> by simp
        have "CHR 0x00 \<notin> set chunk" by (simp add: chunk_def)
        then have nz: "CHR 0x00 \<notin> set padding'"
          using outer.prems(2) by (auto simp: padding'_def dest: in_set_takeD)
        from outer.hyps [OF less fair1 nz len(2)] obtain ps n where
          "padding_loop L padding' s1 = Some (Inr (ps, \<lambda>i. s1 (i + n)))"
          "int (length ps) = L" "CHR 0x00 \<notin> set ps" by blast
        moreover have "(\<lambda>i. s1 (i + n)) = (\<lambda>i. s (i + (n + (needed + 5))))"
          by (simp add: s1_def add.assoc)
        ultimately show ?thesis using step by (auto simp: padding'_def)
      qed
    qed
  qed
qed


text \<open>
  Claim C7. With a random source that yields a non-zero octet again and again:
  when \<open>len(M) \<le> k - 11\<close>, \<open>_pad_for_encryption(M, k)\<close> returns a block of exactly
  \<open>k\<close> bytes \<open>00 02 PS 00 M\<close> whose padding \<open>PS\<close> has \<open>k - len(M) - 3\<close> bytes, none of
  them zero; when \<open>len(M) > k - 11\<close> it raises \<open>OverflowError\<close>.
\<close>

theorem pad_for_encryption_block:
  assumes "nonzero_again_and_again s"
  shows "(int (length M) \<le> k - 11 \<longrightarrow>
            (\<exists>PS s'. pad_for_encryption M k s =
                        Some (Inr ([CHR 0x00, CHR 0x02] @ PS @ [CHR 0x00] @ M, s'))
                \<and> int (length PS) = k - int (length M) - 3
                \<and> CHR 0x00 \<notin> set PS
                \<and> int (length ([CHR 0x00, CHR 0x02] @ PS @ [CHR 0x00] @ M)) = k))
       \<and> (int (length M) > k - 11 \<longrightarrow> pad_for_encryption M k s = Some (Inl OverflowError))"
proof (intro conjI impI)
  assume fits: "int (length M) \<le> k - 11"
  then have "int (length ([] :: bytes)) \<le> k - int (length M) - 3" by simp
  from padding_loop_returns [OF assms _ this] obtain PS n where
    PS: "padding_loop (k - int (length M) - 3) [] s = Some (Inr (PS, \<lambda>i. s (i + n)))"
        "int (length PS) = k - int (length M) - 3" "CHR 0x00 \<notin> set PS" by auto
  have "pad_for_encryption M k s =
          Some (Inr ([CHR 0x00, CHR 0x02] @ PS @ [CHR 0x00] @ M, \<lambda>i. s (i + n)))"
    using fits PS(1) by (simp add: pad_for_encryption_def Let_def)
  moreover have "int (length ([CHR 0x00, CHR 0x02] @ PS @ [CHR 0x00] @ M)) = k"
    using PS(2) by simp
  ultimately show "\<exists>PS s'. pad_for_encryption M k s =
                        Some (Inr ([CHR 0x00, CHR 0x02] @ PS @ [CHR 0x00] @ M, s'))
                \<and> int (length PS) = k - int (length M) - 3
                \<and> CHR 0x00 \<notin> set PS
                \<and> int (length ([CHR 0x00, CHR 0x02] @ PS @ [CHR 0x00] @ M)) = k"
    using PS(2,3) by blast
next
  assume "int (length M) > k - 11"
  then show "pad_for_encryption M k s = Some (Inl OverflowError)"
    by (simp add: pad_for_encryption_def Let_def)
qed

theorem pad_for_encryption_block_witness:
  "(\<exists>PS s'. pad_for_encryption ''hello'' 16 (\<lambda>_. CHR 0x07) =
                Some (Inr ([CHR 0x00, CHR 0x02] @ PS @ [CHR 0x00] @ ''hello'', s'))
        \<and> int (length PS) = 8 \<and> CHR 0x00 \<notin> set PS)
   \<and> pad_for_encryption ''hello'' 15 (\<lambda>_. CHR 0x07) = Some (Inl OverflowError)"
proof -
  have fair: "nonzero_again_and_again (\<lambda>_. CHR 0x07)"
    by (auto simp: nonzero_again_and_again_def)
  show ?thesis
    using pad_for_encryption_block [OF fair, of "''hello''" 16]
      pad_for_encryption_block [OF fair, of "''hello''" 15]
    by simp blast
qed

section \<open>Properties of rsa/pkcs1_v2.py\<close>

lemma upt_0_4: "[0..<4] = [0, 1, 2, 3 :: nat]"
  by code_simp

lemma upt_0_2: "[0..<2] = [0, 1 :: nat]"
  by code_simp

lemma to_bytes_big_4:
  "0 \<le> c \<Longrightarrow> c < 4294967296 \<Longrightarrow> to_bytes_big c 4 = Inr (I2OSP4 c)"
  by (simp add: to_bytes_big_def I2OSP4_def upt_0_4)

lemma mgf1_blocks_Suc:
  "mgf1_blocks hm seed (Suc n) = mgf1_blocks hm seed n @ digest hm (seed @ I2OSP4 (int n))"
  by (simp add: mgf1_blocks_def)

lemma length_mgf1_blocks:
  assumes "\<forall>x. int (length (digest hm x)) = digest_size hm"
  shows "int (length (mgf1_blocks hm seed n)) = int n * digest_size hm"
proof (induction n)
  case 0
  show ?case by (simp add: mgf1_blocks_def)
next
  case (Suc n)
  have "int (length (digest hm (seed @ I2OSP4 (int n)))) = digest_size hm" using assms by blast
  with Suc show ?case by (simp add: mgf1_blocks_Suc distrib_right)
qed

lemma mgf1_blocks_prefix:
  "m \<le> n \<Longrightarrow> \<exists>rest. mgf1_blocks hm seed n = mgf1_blocks hm seed m @ rest"
proof (induction n)
  case 0
  then show ?case by simp
next
  case (Suc n)
  show ?case
  proof (cases "m = Suc n")
    case True
    then show ?thesis by simp
  next
    case False
    with Suc.prems have "m \<le> n" by simp
    from Suc.IH [OF this] obtain rest where "mgf1_blocks hm seed n = mgf1_blocks hm seed m @ rest" ..
    then show ?thesis by (simp add: mgf1_blocks_Suc)
  qed
qed

text \<open>The loop, started on the first \<open>c\<close> blocks, stops on the first \<open>m\<close> blocks that reach \<open>len\<close>.\<close>

lemma mgf1_loop_blocks:
  assumes sz: "\<forall>x. int (length (digest hm x)) = digest_size hm"
    and bound: "len \<le> 4294967296 * digest_size hm"
  shows "\<exists>m. mgf1_loop hm seed len (mgf1_blocks hm seed c) (int c) = Inr (mgf1_blocks hm seed m)
             \<and> len \<le> int m * digest_size hm"
proof (induction "nat (4294967296 - int c)" arbitrary: c rule: less_induct)
  case less
  have L: "int (length (mgf1_blocks hm seed c)) = int c * digest_size hm"
    using sz by (rule length_mgf1_blocks)
  show ?case
  proof (cases "int c * digest_size hm < len")
    case False
    then have "mgf1_loop hm seed len (mgf1_blocks hm seed c) (int c) = Inr (mgf1_blocks hm seed c)"
      using L by (subst mgf1_loop.simps) simp
    with False show ?thesis by (intro exI [of _ c]) simp
  next
    case True
    with bound have lt: "int c * digest_size hm < 4294967296 * digest_size hm" by simp
    have "0 \<le> digest_size hm" using sz by (metis of_nat_0_le_iff)
    with lt have "0 < digest_size hm" by (cases "digest_size hm = 0") simp_all
    with lt have c: "int c < 4294967296" by (simp only: mult_less_cancel_right_pos)
    then have tb: "to_bytes_big (int c) 4 = Inr (I2OSP4 (int c))"
      by (simp add: to_bytes_big_4)
    have "nat (4294967296 - int (Suc c)) < nat (4294967296 - int c)" using c by simp
    from less.hyps [OF this] obtain m where
      m: "mgf1_loop hm seed len (mgf1_blocks hm seed (Suc c)) (int (Suc c)) = Inr (mgf1_blocks hm seed m)"
         "len \<le> int m * digest_size hm" by blast
    have "mgf1_loop hm seed len (mgf1_blocks hm seed c) (int c) =
          mgf1_loop hm seed len (mgf1_blocks hm seed (Suc c)) (int (Suc c))"
      using True L tb by (subst mgf1_loop.simps) (simp add: mgf1_blocks_Suc add.commute)
    with m show ?thesis by auto
  qed
qed

lemma take_mgf1_blocks_eq:
  assumes sz: "\<forall>x. int (length (digest hm x)) = digest_size hm"
    and m: "len \<le> int m * digest_size hm" and n: "len \<le> int n * digest_size hm"
  shows "take (nat len) (mgf1_blocks hm seed m) = take (nat len) (mgf1_blocks hm seed n)"
proof -
  have long: "nat len \<le> length (mgf1_blocks hm seed k)" if "len \<le> int k * digest_size hm" for k
    using that length_mgf1_blocks [OF sz, of seed k] by linarith
  have pre: "take (nat len) (mgf1_blocks hm seed b) = take (nat len) (mgf1_blocks hm seed a)"
    if "a \<le> b" "len \<le> int a * digest_size hm" for a b
  proof -
    from mgf1_blocks_prefix [OF that(1)] obtain rest where
      "mgf1_blocks hm seed b = mgf1_blocks hm seed a @ rest" ..
    then show ?thesis using long [OF that(2)] by simp
  qed
  show ?thesis
  proof (cases "m \<le> n")
    case True
    show ?thesis using pre [OF True m] by (rule sym)
  next
    case False
    then have "n \<le> m" by simp
    then show ?thesis using n by (rule pre)
  qed
qed

text \<open>
  The body of \<open>mgf1\<close>, run with the hash table of \<open>rsa/pkcs1.py\<close>, computes the mask
  of the specification: for a supported hash name with output size \<open>digest_size hm\<close> and
  a length between \<open>0\<close> and \<open>2 ^ 32 * digest_size hm\<close> it returns the first \<open>len\<close> bytes
  of \<open>H(seed || C(0)) || H(seed || C(1)) || ...\<close>, of any number \<open>n\<close> of blocks that
  reaches \<open>len\<close> bytes. The hypothesis on \<open>digest\<close> says that the hash returns
  \<open>digest_size\<close> bytes, as every \<open>hashlib\<close> hash does.
\<close>

lemma mgf1_body_is_mask_prefix:
  assumes supported: "map_of (HASH_METHODS hl) hasher = Some hm"
    and sz: "\<forall>x. int (length (digest hm x)) = digest_size hm"
    and len: "0 \<le> len" "len \<le> 2 ^ 32 * digest_size hm"
    and n: "len \<le> int n * digest_size hm"
  shows "mgf1_body (HASH_METHODS hl) seed len hasher = Inr (take (nat len) (mgf1_blocks hm seed n))"
proof -
  from len(2) have bound: "len \<le> 4294967296 * digest_size hm" by simp
  from mgf1_loop_blocks [OF sz bound, of seed 0] obtain m where
    m: "mgf1_loop hm seed len [] 0 = Inr (mgf1_blocks hm seed m)" "len \<le> int m * digest_size hm"
    by (auto simp: mgf1_blocks_def)
  have "mgf1_body (HASH_METHODS hl) seed len hasher = Inr (slice_to (mgf1_blocks hm seed m) len)"
    using supported len(2) m(1) by (simp add: mgf1_body_def Let_def)
  also have "slice_to (mgf1_blocks hm seed m) len = take (nat len) (mgf1_blocks hm seed m)"
    using len(1) by (simp add: slice_to_def)
  also have "\<dots> = take (nat len) (mgf1_blocks hm seed n)"
    using sz m(2) n by (rule take_mgf1_blocks_eq)
  finally show ?thesis .
qed

text \<open>
  Claim C6. \<open>mgf1\<close> returns no mask: for every seed, length and hash name, also for
  \<open>mgf1(b'', 0)\<close>, reading the unbound global name \<open>HASH_METHODS\<close> raises
  \<open>NameError\<close> before anything is hashed.
\<close>

theorem mgf1_raises_NameError:
  "mgf1 hl seed len hasher = Inl NameError"
  by (simp add: mgf1_def pkcs1_v2_globals_def)

section \<open>Properties of the base64 model\<close>

lemma length_b64_alphabet: "length b64_alphabet = 64"
  by (simp add: b64_alphabet_def)

lemma distinct_b64_alphabet: "distinct b64_alphabet"
  by (simp add: b64_alphabet_def)

lemma table_a2b_b2a: "i < 64 \<Longrightarrow> table_a2b (table_b2a i) = Some i"
proof -
  assume i: "i < 64"
  have "map_of (zip b64_alphabet [0..<64]) (b64_alphabet ! i) = Some ([0..<64] ! i)"
    using i by (intro map_of_zip_nth) (simp_all add: length_b64_alphabet distinct_b64_alphabet)
  then show ?thesis using i by (simp add: table_a2b_def table_b2a_def)
qed

lemma table_b2a_in_alphabet: "i < 64 \<Longrightarrow> table_b2a i \<in> set b64_alphabet"
  by (simp add: table_b2a_def length_b64_alphabet)

lemma pad_not_in_alphabet: "CHR ''='' \<notin> set b64_alphabet"
  by (simp add: b64_alphabet_def)

lemma table_b2a_not_pad: "i < 64 \<Longrightarrow> table_b2a i \<noteq> CHR ''=''"
  using table_b2a_in_alphabet pad_not_in_alphabet by metis

lemma six_bit_arith:
  fixes x y z :: nat
  assumes "x < 256" "y < 256" "z < 256"
  shows "x div 4 < 64" "x mod 4 * 16 + y div 16 < 64" "y mod 16 * 4 + z div 64 < 64" "z mod 64 < 64"
    "x mod 4 * 16 < 64" "y mod 16 * 4 < 64"
    "x div 4 * 4 + (x mod 4 * 16 + y div 16) div 16 = x"
    "(x mod 4 * 16 + y div 16) mod 16 = y div 16"
    "y div 16 * 16 + (y mod 16 * 4 + z div 64) div 4 = y"
    "(y mod 16 * 4 + z div 64) mod 4 = z div 64"
    "z div 64 * 64 + z mod 64 = z"
    "x div 4 * 4 + (x mod 4 * 16) div 16 = x"
    "y div 16 * 16 + (y mod 16 * 4) div 4 = y"
    "(x mod 4 * 16) mod 16 = 0"
    "y div 16 div 16 = 0" "y div 16 mod 16 = y div 16" "z div 64 div 4 = 0"
    "z div 64 mod 4 = z div 64" "y div 16 * 16 + y mod 16 = y"
  using assms by (simp_all add: div_mult2_eq [symmetric])


lemmas of_char_lt_256 = nat_of_char_less_256

lemma a2b_loop_alpha:
  assumes "i < 64"
  shows "a2b_loop q l p out (table_b2a i # rest) =
           (if q = 0 then a2b_loop 1 i 0 out rest
            else if q = 1 then a2b_loop 2 (i mod 16) 0 (out @ [char_of (l * 4 + i div 16)]) rest
            else if q = 2 then a2b_loop 3 (i mod 4) 0 (out @ [char_of (l * 16 + i div 4)]) rest
            else a2b_loop 0 0 0 (out @ [char_of (l * 64 + i)]) rest)"
  using assms by (simp add: a2b_loop.simps(2) table_a2b_b2a table_b2a_not_pad)

lemma a2b_loop_pad:
  "a2b_loop q l p out (CHR ''='' # rest) =
     (if q \<ge> 2 \<and> q + (p + 1) \<ge> 4 then Inr out
      else a2b_loop q l (if q \<ge> 2 then p + 1 else p) out rest)"
  by (simp add: a2b_loop.simps(2))

lemma a2b_loop_group3:
  fixes x y z :: nat
  assumes lt: "x < 256" "y < 256" "z < 256"
  shows "a2b_loop 0 0 0 out
           (table_b2a (x div 4) # table_b2a (x mod 4 * 16 + y div 16) #
            table_b2a (y mod 16 * 4 + z div 64) # table_b2a (z mod 64) # rest)
         = a2b_loop 0 0 0 (out @ [char_of x, char_of y, char_of z]) rest"
  by (simp add: a2b_loop_alpha six_bit_arith [OF lt])

lemma a2b_loop_group2:
  fixes x y :: nat
  assumes lt: "x < 256" "y < 256"
  shows "a2b_loop 0 0 0 out
           [table_b2a (x div 4), table_b2a (x mod 4 * 16 + y div 16),
            table_b2a (y mod 16 * 4), CHR ''='']
         = Inr (out @ [char_of x, char_of y])"
  by (simp add: a2b_loop_alpha a2b_loop_pad six_bit_arith [OF lt lt(1)])

lemma a2b_loop_group1:
  fixes x :: nat
  assumes lt: "x < 256"
  shows "a2b_loop 0 0 0 out [table_b2a (x div 4), table_b2a (x mod 4 * 16), CHR ''='', CHR ''='']
         = Inr (out @ [char_of x])"
  by (simp add: a2b_loop_alpha a2b_loop_pad six_bit_arith [OF lt lt lt])

lemma a2b_loop_b64encode: "a2b_loop 0 0 0 out (b64encode x) = Inr (out @ x)"
proof (induction x arbitrary: out rule: b64encode.induct)
  case 1
  show ?case by simp
next
  case (2 a)
  show ?case using a2b_loop_group1 [OF of_char_lt_256 [of a], of out] by (simp add: Let_def)
next
  case (3 a b)
  show ?case using a2b_loop_group2 [OF of_char_lt_256 [of a] of_char_lt_256 [of b], of out]
    by (simp add: Let_def)
next
  case (4 a b c rest)
  show ?case
    using a2b_loop_group3 [OF of_char_lt_256 [of a] of_char_lt_256 [of b] of_char_lt_256 [of c],
        of out "b64encode rest"]
      "4.IH" [OF refl refl refl, of "out @ [a, b, c]"]
    by (simp add: Let_def)
qed

lemma b64decode_b64encode: "b64decode (b64encode x) = Inr x"
  by (simp add: b64decode_def a2b_loop_b64encode)

lemma b64encode_chars: "set (b64encode x) \<subseteq> b64_chars"
proof (induction x rule: b64encode.induct)
  case 1
  show ?case by simp
next
  case (2 a)
  show ?case
    using six_bit_arith [OF of_char_lt_256 [of a] of_char_lt_256 [of a] of_char_lt_256 [of a]]
    by (simp add: Let_def b64_chars_def table_b2a_in_alphabet)
next
  case (3 a b)
  show ?case
    using six_bit_arith [OF of_char_lt_256 [of a] of_char_lt_256 [of b] of_char_lt_256 [of a]]
    by (simp add: Let_def b64_chars_def table_b2a_in_alphabet)
next
  case (4 a b c rest)
  show ?case
    using six_bit_arith [OF of_char_lt_256 [of a] of_char_lt_256 [of b] of_char_lt_256 [of c]]
      "4.IH" [OF refl refl refl]
    by (simp add: Let_def b64_chars_def table_b2a_in_alphabet)
qed

lemma b64encode_nonempty: "x \<noteq> [] \<Longrightarrow> b64encode x \<noteq> []"
  by (induction x rule: b64encode.induct) (simp_all add: Let_def)

lemma b64_chars_plain:
  assumes "c \<in> b64_chars"
  shows "c \<noteq> CHR 0x0a" "\<not> is_space c" "c \<noteq> CHR ''-''"
  using assms by (auto simp: b64_chars_def b64_alphabet_def is_space_def)

section \<open>Properties of rsa/pem.py\<close>

lemma split_newline_nonempty: "split_newline cs \<noteq> []"
  by (induction cs) (simp_all split: list.splits)

lemma split_newline_line:
  "CHR 0x0a \<notin> set l \<Longrightarrow> split_newline (l @ CHR 0x0a # rest) = l # split_newline rest"
  by (induction l) (auto split: list.splits)

lemma split_newline_lines:
  "\<forall>l \<in> set lines. CHR 0x0a \<notin> set l \<Longrightarrow>
   split_newline (concat (map (\<lambda>l. l @ [CHR 0x0a]) lines)) = lines @ [[]]"
  by (induction lines) (simp_all add: split_newline_line)

lemma join_bytes_append_sep:
  "lines \<noteq> [] \<Longrightarrow> join_bytes sep lines @ sep = concat (map (\<lambda>l. l @ sep) lines)"
  by (induction sep lines rule: join_bytes.induct) simp_all

lemma concat_pem_blocks: "concat (pem_blocks n b64) = drop n b64"
proof (induction n b64 rule: pem_blocks.induct)
  case (1 block_start b64)
  show ?case
  proof (cases "block_start < length b64")
    case True
    have "take 64 (drop block_start b64) @ drop (block_start + 64) b64 = drop block_start b64"
      by (metis add.commute append_take_drop_id drop_drop)
    with "1.IH" [OF True] True show ?thesis
      by (subst pem_blocks.simps) simp
  next
    case False
    then show ?thesis by (subst pem_blocks.simps) simp
  qed
qed

lemma pem_blocks_members:
  "blk \<in> set (pem_blocks n b64) \<Longrightarrow> blk \<noteq> [] \<and> set blk \<subseteq> set b64"
proof (induction n b64 rule: pem_blocks.induct)
  case (1 block_start b64)
  show ?case
  proof (cases "block_start < length b64")
    case True
    from "1.prems" True have
      "blk = take 64 (drop block_start b64) \<or> blk \<in> set (pem_blocks (block_start + 64) b64)"
      by (subst (asm) pem_blocks.simps) simp
    then show ?thesis
    proof
      assume blk: "blk = take 64 (drop block_start b64)"
      have "set blk \<subseteq> set b64" unfolding blk
        by (meson set_take_subset set_drop_subset subset_trans)
      moreover have "blk \<noteq> []" using True by (simp add: blk)
      ultimately show ?thesis by simp
    next
      assume "blk \<in> set (pem_blocks (block_start + 64) b64)"
      then show ?thesis by (rule "1.IH" [OF True])
    qed
  next
    case False
    with "1.prems" show ?thesis by (subst (asm) pem_blocks.simps) simp
  qed
qed

lemma pem_blocks_nonempty: "b64 \<noteq> [] \<Longrightarrow> pem_blocks 0 b64 \<noteq> []"
  by (subst pem_blocks.simps) simp

lemma strip_id:
  assumes "l \<noteq> []" "\<not> is_space (hd l)" "\<not> is_space (last l)"
  shows "strip l = l"
proof -
  have "dropWhile is_space l = l" using assms(1,2) by (cases l) simp_all
  moreover have "dropWhile is_space (rev l) = rev l"
    using assms(1,3) by (cases "rev l") (simp_all add: hd_rev [symmetric])
  ultimately show ?thesis by (simp add: strip_def)
qed

lemma pem_lines_loop_body:
  assumes "\<forall>l \<in> set blocks. strip l = l \<and> l \<noteq> pem_start \<and> l \<noteq> pem_end"
    and "strip pem_end = pem_end" "pem_end \<noteq> pem_start"
  shows "pem_lines_loop True (blocks @ pem_end # rest) pem_start pem_end = blocks"
  using assms by (induction blocks) (simp_all add: Let_def)


lemma pem_blocks_empty_iff: "pem_blocks n b64 = [] \<longleftrightarrow> \<not> n < length b64"
  by (subst pem_blocks.simps) simp

lemma pem_blocks_shape:
  "list_all (\<lambda>line. length line = 64) (butlast (pem_blocks n b64))
   \<and> list_all (\<lambda>line. 0 < length line \<and> length line \<le> 64) (pem_blocks n b64)"
proof (induction n b64 rule: pem_blocks.induct)
  case (1 block_start b64)
  show ?case
  proof (cases "block_start < length b64")
    case False
    then show ?thesis by (subst (1 2) pem_blocks.simps) simp
  next
    case True
    define rest where "rest = pem_blocks (block_start + 64) b64"
    have unfold: "pem_blocks block_start b64 = take 64 (drop block_start b64) # rest"
      using True by (subst pem_blocks.simps) (simp add: rest_def)
    have IH: "list_all (\<lambda>line. length line = 64) (butlast rest)"
      "list_all (\<lambda>line. 0 < length line \<and> length line \<le> 64) rest"
      using "1.IH" [OF True] by (simp_all add: rest_def)
    have full: "length (take 64 (drop block_start b64)) = 64" if "rest \<noteq> []"
    proof -
      from that have "block_start + 64 < length b64"
        by (simp add: rest_def pem_blocks_empty_iff)
      then show ?thesis by simp
    qed
    show ?thesis using True IH full by (simp add: unfold)
  qed
qed

text \<open>
  Claim C8, amended. For every byte string \<open>x\<close> and every ASCII marker string without a
  line feed, \<open>save_pem\<close> returns the BEGIN marker line, the base64 encoding of \<open>x\<close>
  wrapped into lines of 64 characters (the last line may be shorter, none is empty) and
  the END marker line, each followed by a line feed; \<open>load_pem\<close> of that result, under
  the same marker, returns \<open>x\<close> when \<open>x\<close> is not empty and raises \<open>ValueError\<close> when
  \<open>x\<close> is empty.
\<close>

theorem load_pem_save_pem:
  assumes ascii: "list_all (\<lambda>c. (of_char c :: nat) < 128) marker"
    and nonl: "CHR 0x0a \<notin> set marker"
  shows "\<exists>blocks pem.
           save_pem x (Str marker) = Inr pem
         \<and> pem = concat (map (\<lambda>line. line @ [CHR 0x0a])
                    ([''-----BEGIN '' @ marker @ ''-----''] @ blocks @
                     [''-----END '' @ marker @ ''-----'']))
         \<and> concat blocks = b64encode x
         \<and> list_all (\<lambda>line. length line = 64) (butlast blocks)
         \<and> list_all (\<lambda>line. 0 < length line \<and> length line \<le> 64) blocks
         \<and> load_pem (Bytes pem) (Str marker) = (if x = [] then Inl ValueError else Inr x)"
proof -
  define ps where "ps = ''-----BEGIN '' @ marker @ ''-----''"
  define pe where "pe = ''-----END '' @ marker @ ''-----''"
  define b64 where "b64 = b64encode x"
  define blocks where "blocks = pem_blocks 0 b64"
  define pem where "pem = join_bytes [CHR 0x0a] ([ps] @ blocks @ [pe]) @ [CHR 0x0a]"
  have mk: "markers (Str marker) = Inr (ps, pe)"
    using ascii by (simp add: markers_def encode_ascii_def ps_def pe_def)
  have b64_set: "set b64 \<subseteq> b64_chars" unfolding b64_def by (rule b64encode_chars)
  then have "\<forall>c \<in> set b64. c \<noteq> CHR 0x0a" using b64_chars_plain(1) by blast
  then have flt: "filter (\<lambda>c. c \<noteq> CHR 0x0a) b64 = b64" by (simp add: filter_id_conv)
  have save: "save_pem x (Str marker) = Inr pem"
    using mk flt by (simp add: save_pem_def Let_def b64_def [symmetric] blocks_def pem_def)
  have blk: "blk \<noteq> [] \<and> set blk \<subseteq> b64_chars" if "blk \<in> set blocks" for blk
    using pem_blocks_members [of blk 0 b64] that b64_set by (auto simp: blocks_def)
  have blk_plain: "CHR 0x0a \<notin> set blk \<and> strip blk = blk \<and> blk \<noteq> ps \<and> blk \<noteq> pe"
    if "blk \<in> set blocks" for blk
  proof -
    from blk [OF that] have b: "blk \<noteq> []" "set blk \<subseteq> b64_chars" by simp_all
    then have "hd blk \<in> b64_chars" "last blk \<in> b64_chars" by auto
    then have "\<not> is_space (hd blk)" "\<not> is_space (last blk)" "hd blk \<noteq> CHR ''-''"
      using b64_chars_plain by blast+
    moreover have "hd ps = CHR ''-''" "hd pe = CHR ''-''" by (simp_all add: ps_def pe_def)
    moreover have "CHR 0x0a \<notin> set blk" using b(2) b64_chars_plain(1) by blast
    ultimately show ?thesis using b(1) by (auto simp: strip_id)
  qed
  have ps_plain: "CHR 0x0a \<notin> set ps" "strip ps = ps"
    and pe_plain: "CHR 0x0a \<notin> set pe" "strip pe = pe" and diff: "pe \<noteq> ps"
    using nonl by (simp_all add: ps_def pe_def strip_id is_space_def)
  have armour: "pem = concat (map (\<lambda>line. line @ [CHR 0x0a]) ([ps] @ blocks @ [pe]))"
    unfolding pem_def by (rule join_bytes_append_sep) simp
  moreover have "\<forall>l \<in> set ([ps] @ blocks @ [pe]). CHR 0x0a \<notin> set l"
    using ps_plain(1) pe_plain(1) blk_plain by auto
  ultimately have split: "split_newline pem = ([ps] @ blocks @ [pe]) @ [[]]"
    by (simp only: split_newline_lines)
  have "pem_lines pem ps pe = pem_lines_loop True (blocks @ pe # [[]]) ps pe"
    using ps_plain(2) by (simp add: pem_lines_def split Let_def)
  also have "\<dots> = blocks"
    using blk_plain pe_plain(2) diff by (intro pem_lines_loop_body) auto
  finally have lines: "pem_lines pem ps pe = blocks" .
  have body: "concat blocks = b64" by (simp add: blocks_def concat_pem_blocks)
  have shape: "list_all (\<lambda>line. length line = 64) (butlast blocks)"
    "list_all (\<lambda>line. 0 < length line \<and> length line \<le> 64) blocks"
    using pem_blocks_shape [of 0 b64] by (simp_all add: blocks_def)
  have load: "load_pem (Bytes pem) (Str marker) = (if x = [] then Inl ValueError else Inr x)"
  proof (cases "x = []")
    case True
    then have "blocks = []" by (simp add: blocks_def b64_def pem_blocks_empty_iff)
    then show ?thesis using True mk lines by (simp add: load_pem_def Let_def)
  next
    case False
    then have "b64 \<noteq> []" unfolding b64_def by (rule b64encode_nonempty)
    then have "blocks \<noteq> []" unfolding blocks_def by (rule pem_blocks_nonempty)
    then show ?thesis using False mk lines body
      by (simp add: load_pem_def Let_def b64_def b64decode_b64encode)
  qed
  from save armour body shape load show ?thesis
    unfolding ps_def pe_def b64_def by blast
qed

theorem load_pem_save_pem_witness:
  "save_pem ''aaaaaaaaaaaaaaaaaaaaaaaaaaaaaaaaaaaaaaaaaaaaaaaaa'' (Str ''RSA PUBLIC KEY'') =
     Inr ''-----BEGIN RSA PUBLIC KEY-----\<newline>YWFhYWFhYWFhYWFhYWFhYWFhYWFhYWFhYWFhYWFhYWFhYWFhYWFhYWFhYWFhYWFh\<newline>YQ==\<newline>-----END RSA PUBLIC KEY-----\<newline>''
   \<and> load_pem (Bytes ''-----BEGIN RSA PUBLIC KEY-----\<newline>YWFhYWFhYWFhYWFhYWFhYWFhYWFhYWFhYWFhYWFhYWFhYWFhYWFhYWFhYWFhYWFh\<newline>YQ==\<newline>-----END RSA PUBLIC KEY-----\<newline>'')
         (Str ''RSA PUBLIC KEY'') = Inr ''aaaaaaaaaaaaaaaaaaaaaaaaaaaaaaaaaaaaaaaaaaaaaaaaa''"
proof -
  have s: "save_pem ''aaaaaaaaaaaaaaaaaaaaaaaaaaaaaaaaaaaaaaaaaaaaaaaaa'' (Str ''RSA PUBLIC KEY'') =
     Inr ''-----BEGIN RSA PUBLIC KEY-----\<newline>YWFhYWFhYWFhYWFhYWFhYWFhYWFhYWFhYWFhYWFhYWFhYWFhYWFhYWFhYWFhYWFh\<newline>YQ==\<newline>-----END RSA PUBLIC KEY-----\<newline>''"
    by code_simp
  from load_pem_save_pem [of "''RSA PUBLIC KEY''" "''aaaaaaaaaaaaaaaaaaaaaaaaaaaaaaaaaaaaaaaaaaaaaaaaa''"]
  obtain pem where "save_pem ''aaaaaaaaaaaaaaaaaaaaaaaaaaaaaaaaaaaaaaaaaaaaaaaaa'' (Str ''RSA PUBLIC KEY'') = Inr pem"
    "load_pem (Bytes pem) (Str ''RSA PUBLIC KEY'') = Inr ''aaaaaaaaaaaaaaaaaaaaaaaaaaaaaaaaaaaaaaaaaaaaaaaaa''"
    by auto
  with s show ?thesis by simp
qed

text \<open>
  Claim C8 as stated, for every byte string and every ASCII marker, fails in two ways. For empty contents \<open>save_pem\<close> writes no body
  line, and \<open>load_pem\<close> raises \<open>ValueError\<close> on a PEM block without body lines. For a
  marker that contains a line feed the BEGIN line is split in two and never found.
\<close>

theorem load_pem_save_pem_counterexample:
  "save_pem [] (Str ''RSA PUBLIC KEY'') =
     Inr ''-----BEGIN RSA PUBLIC KEY-----\<newline>-----END RSA PUBLIC KEY-----\<newline>''
   \<and> load_pem (Bytes ''-----BEGIN RSA PUBLIC KEY-----\<newline>-----END RSA PUBLIC KEY-----\<newline>'')
         (Str ''RSA PUBLIC KEY'') = Inl ValueError
   \<and> save_pem ''hello'' (Str ''A\<newline>B'') =
     Inr ''-----BEGIN A\<newline>B-----\<newline>aGVsbG8=\<newline>-----END A\<newline>B-----\<newline>''
   \<and> load_pem (Bytes ''-----BEGIN A\<newline>B-----\<newline>aGVsbG8=\<newline>-----END A\<newline>B-----\<newline>'')
         (Str ''A\<newline>B'') = Inl ValueError"
  by code_simp

section \<open>Properties of verification in rsa/pkcs1.py\<close>

lemma find_method_hash_loop_head:
  assumes "\<forall>(name, code) \<in> set table. code \<noteq> [] \<and> hd code = c"
    and "find_method_hash_loop table clearsig = Inr name"
  shows "clearsig \<noteq> [] \<and> hd clearsig = c"
  using assms
proof (induction table)
  case Nil
  then show ?case by simp
next
  case (Cons entry table)
  obtain hashname asn1code where entry: "entry = (hashname, asn1code)" by (cases entry)
  show ?case
  proof (cases "startswith clearsig asn1code")
    case True
    from Cons.prems(1) entry have code: "asn1code \<noteq> []" "hd asn1code = c" by simp_all
    from True have "take (length asn1code) clearsig = asn1code" by (simp add: startswith_def)
    with code show ?thesis by (cases clearsig; cases asn1code) auto
  next
    case False
    with Cons entry show ?thesis by simp
  qed
qed

lemma HASH_ASN1_heads: "\<forall>(name, code) \<in> set HASH_ASN1. code \<noteq> [] \<and> hd code = CHR 0x30"
  by (simp add: HASH_ASN1_def)

lemma find_method_hash_head:
  "find_method_hash clearsig = Inr name \<Longrightarrow> clearsig \<noteq> [] \<and> hd clearsig = CHR 0x30"
  unfolding find_method_hash_def using HASH_ASN1_heads by (rule find_method_hash_loop_head)

lemma pad_for_signing_head:
  "pad_for_signing message target_length = Inr expected \<Longrightarrow> hd expected = CHR 0x00"
  by (auto simp: pad_for_signing_def Let_def split: if_splits)

text \<open>
  Claim C1. \<open>verify\<close> returns no hash name, whatever the message, the signature and the
  key are: \<open>_find_method_hash\<close> answers only for a block that starts with a DigestInfo
  prefix, whose first octet is \<open>0x30\<close>, and the expected block of \<open>_pad_for_signing\<close>
  starts with \<open>0x00\<close>, so the final comparison fails whenever a hash was found.
\<close>

theorem verify_always_raises:
  "\<exists>err. verify hl message signature pub_key = Inl err"
proof (cases "verify hl message signature pub_key")
  case (Inl err)
  then show ?thesis by blast
next
  case (Inr method_name)
  then obtain clearsig expected cleartext where
    found: "find_method_hash clearsig = Inr method_name"
    and padded: "pad_for_signing cleartext (byte_size (pub_n pub_key)) = Inr expected"
    and same: "expected = clearsig"
    by (auto simp: verify_def Let_def split: sum.splits option.splits if_splits)
  from find_method_hash_head [OF found] pad_for_signing_head [OF padded] same
  show ?thesis by simp
qed

text \<open>
  What a signature made by \<open>sign\<close> meets: its block \<open>00 01 FF ... 00 T\<close> starts with
  \<open>0x00\<close>, and \<open>_find_method_hash\<close> raises \<open>VerificationError\<close> on it.
\<close>

lemma find_method_hash_padded_block:
  "find_method_hash (CHR 0x00 # rest) = Inl VerificationError"
  by (simp add: find_method_hash_def HASH_ASN1_def startswith_def)

section \<open>Properties of decryption in rsa/pkcs1.py\<close>

lemma find_upt_first:
  "List.find (\<lambda>i. b ! i = c) [start..<length b] =
     (if c \<in> set (drop start b)
      then Some (start + length (takeWhile (\<lambda>x. x \<noteq> c) (drop start b)))
      else None)"
proof (induction "length b - start" arbitrary: start)
  case 0
  then show ?case by simp
next
  case (Suc d)
  then have lt: "start < length b" and d: "d = length b - Suc start" by simp_all
  have u: "[start..<length b] = start # [Suc start..<length b]"
    using lt by (simp add: upt_conv_Cons)
  have dr: "drop start b = b ! start # drop (Suc start) b"
    using lt by (simp add: Cons_nth_drop_Suc)
  show ?case
    unfolding u dr using Suc.hyps(1) [OF d] by auto
qed

lemma index_from_eq:
  "index_from b c start =
     (if c \<in> set (drop start b)
      then Inr (start + length (takeWhile (\<lambda>x. x \<noteq> c) (drop start b)))
      else Inl ValueError)"
  by (simp add: index_from_def find_upt_first)

text \<open>
  Claim C3, amended. Let \<open>EM\<close> be the decrypted block of \<open>k\<close> bytes. \<open>decrypt\<close> raises
  \<open>DecryptionError\<close> exactly when \<open>EM[0:2]\<close> is not \<open>00 02\<close> or no \<open>0x00\<close> octet occurs
  at an index of at least 2; otherwise it returns \<open>EM[sep + 1:]\<close> for the first index
  \<open>sep \<ge> 2\<close> that holds \<open>0x00\<close>, also when \<open>sep < 10\<close>: a separator within the first
  ten bytes is accepted.
\<close>

theorem decrypt_parse:
  assumes "blinded_decrypt priv_key (bytes2int crypto) s = Some (Inr (decrypted, key1, s1))"
    and "int2bytes decrypted (byte_size (priv_n priv_key)) = Inr EM"
  shows "decrypt crypto priv_key s =
           Some (if take 2 EM = [CHR 0x00, CHR 0x02] \<and> CHR 0x00 \<in> set (drop 2 EM)
                 then Inr (drop (Suc (2 + length (takeWhile (\<lambda>x. x \<noteq> CHR 0x00) (drop 2 EM)))) EM,
                           key1, s1)
                 else Inl DecryptionError)"
  using assms by (simp add: decrypt_def Let_def index_from_eq slice_from_def)

lemma example_bit_size: "bit_size 16850988 = 25" "byte_size 16850989 = 4"
  by (simp_all add: byte_size_def bit_size_def bin_def bin_digits.simps)

lemma example_read_random_int:
  "read_random_int 25 (\<lambda>_. CHR 0x01) = Inr (16843009, \<lambda>_. CHR 0x01)"
  by (simp add: read_random_int_def read_random_bits_def urandom_def bytes_of_ints_def Let_def
        bytes2int_def upt_rec)

lemma example_randint:
  "randint 16850988 (\<lambda>_. CHR 0x01) = Some (Inr (16843009, \<lambda>_. CHR 0x01))"
  unfolding randint_def example_bit_size
  by (subst randint_loop.simps) (simp add: example_read_random_int)

lemma example_gcd: "gcd (16843009 :: int) 16850989 = 1"
  by code_simp

lemma example_initial_blinding_factor:
  "initial_blinding_factor 16850989 (\<lambda>_. CHR 0x01) = Some (Inr (16843009, \<lambda>_. CHR 0x01))"
  by (subst initial_blinding_factor.simps) (simp add: example_randint example_gcd)

lemma example_inverse: "inverse_mod 16843009 16850989 = Inr 15434070"
  by (simp add: inverse_mod_def extended_gcd_def extended_gcd_loop.simps)

lemma example_update_blinding_factor:
  "update_blinding_factor example_private_key (\<lambda>_. CHR 0x01) =
     Some (Inr ((13127433, 15772112),
                example_private_key\<lparr>blinding := Some (13127433, 15772112)\<rparr>, \<lambda>_. CHR 0x01))"
  by (simp add: update_blinding_factor_def example_private_key_def Let_def
        example_initial_blinding_factor example_inverse)


lemma example_modpow:
  "modpow 13127433 65537 16850989 = 1484868"
  "modpow 7023842 3437 4099 = 2396" "modpow 7023842 2783 4111 = 172"
  "modpow 2969736 3437 4099 = 1290" "modpow 2969736 2783 4111 = 3203"
  by (simp_all add: modpow.simps)

lemma example_blinded_decrypt:
  "blinded_decrypt example_private_key 4167551 (\<lambda>_. CHR 0x01) =
     Some (Inr (131137, example_private_key\<lparr>blinding := Some (13127433, 15772112)\<rparr>,
                \<lambda>_. CHR 0x01))"
  "blinded_decrypt example_private_key 2 (\<lambda>_. CHR 0x01) =
     Some (Inr (10082076, example_private_key\<lparr>blinding := Some (13127433, 15772112)\<rparr>,
                \<lambda>_. CHR 0x01))"
  by (simp_all add: blinded_decrypt_def example_update_blinding_factor crt_fast_path_def Let_def
        example_modpow)
    (simp_all add: example_private_key_def example_modpow)

lemma example_blocks:
  "int2bytes 131137 4 = Inr [CHR 0x00, CHR 0x02, CHR 0x00, CHR ''A'']"
  "int2bytes 10082076 4 = Inr [CHR 0x00, CHR 0x99, CHR 0xd7, CHR 0x1c]"
  "bytes2int [CHR 0x00, CHR 0x3f, CHR 0x97, CHR 0x7f] = 4167551"
  "bytes2int [CHR 0x00, CHR 0x00, CHR 0x00, CHR 0x02] = 2"
  by (simp_all add: int2bytes_def bytes2int_def upt_0_4 char_of_eq_iff)

lemma example_byte_size: "byte_size (priv_n example_private_key) = 4"
  by (simp add: example_private_key_def example_bit_size)

theorem decrypt_parse_witness:
  "decrypt [CHR 0x00, CHR 0x00, CHR 0x00, CHR 0x02] example_private_key (\<lambda>_. CHR 0x01) =
     Some (Inl DecryptionError)"
proof -
  have b: "blinded_decrypt example_private_key (bytes2int [CHR 0x00, CHR 0x00, CHR 0x00, CHR 0x02])
             (\<lambda>_. CHR 0x01) =
           Some (Inr (10082076, example_private_key\<lparr>blinding := Some (13127433, 15772112)\<rparr>,
                      \<lambda>_. CHR 0x01))"
    by (simp add: example_blocks example_blinded_decrypt)
  have e: "int2bytes 10082076 (byte_size (priv_n example_private_key)) =
           Inr [CHR 0x00, CHR 0x99, CHR 0xd7, CHR 0x1c]"
    by (simp add: example_byte_size example_blocks)
  show ?thesis using decrypt_parse [OF b e] by simp
qed

text \<open>
  Claim C3 as stated fails on the example key: the ciphertext \<open>00 3f 97 7f\<close> decrypts to
  the block \<open>00 02 00 41\<close>, whose separator is at index 2, and \<open>decrypt\<close> returns
  \<open>b'A'\<close> instead of raising \<open>DecryptionError\<close>.
\<close>

theorem decrypt_short_padding_counterexample:
  "blinded_decrypt example_private_key (bytes2int [CHR 0x00, CHR 0x3f, CHR 0x97, CHR 0x7f])
       (\<lambda>_. CHR 0x01) =
     Some (Inr (131137, example_private_key\<lparr>blinding := Some (13127433, 15772112)\<rparr>,
                \<lambda>_. CHR 0x01))
   \<and> int2bytes 131137 (byte_size (priv_n example_private_key)) =
       Inr [CHR 0x00, CHR 0x02, CHR 0x00, CHR ''A'']
   \<and> decrypt [CHR 0x00, CHR 0x3f, CHR 0x97, CHR 0x7f] example_private_key (\<lambda>_. CHR 0x01) =
       Some (Inr (''A'', example_private_key\<lparr>blinding := Some (13127433, 15772112)\<rparr>,
                  \<lambda>_. CHR 0x01))"
proof -
  have b: "blinded_decrypt example_private_key (bytes2int [CHR 0x00, CHR 0x3f, CHR 0x97, CHR 0x7f])
             (\<lambda>_. CHR 0x01) =
           Some (Inr (131137, example_private_key\<lparr>blinding := Some (13127433, 15772112)\<rparr>,
                      \<lambda>_. CHR 0x01))"
    by (simp add: example_blocks example_blinded_decrypt)
  have e: "int2bytes 131137 (byte_size (priv_n example_private_key)) =
           Inr [CHR 0x00, CHR 0x02, CHR 0x00, CHR ''A'']"
    by (simp add: example_byte_size example_blocks)
  have i: "index_from [CHR 0x00, CHR 0x02, CHR 0x00, CHR ''A''] (CHR 0x00) 2 = Inr 2"
    by (simp add: index_from_eq)
  have "decrypt [CHR 0x00, CHR 0x3f, CHR 0x97, CHR 0x7f] example_private_key (\<lambda>_. CHR 0x01) =
       Some (Inr (''A'', example_private_key\<lparr>blinding := Some (13127433, 15772112)\<rparr>,
                  \<lambda>_. CHR 0x01))"
    by (simp add: decrypt_def Let_def b e i slice_from_def)
  with b e show ?thesis by simp
qed


end
